theory Spec2Isabelle
  imports Complex_Main
begin

section \<open>Prime sizing\<close>

text \<open>
  The container of \<^verbatim>\<open>hashtbl.h\<close> and \<^verbatim>\<open>hashtbl.inl\<close> sizes its bucket array with
  two static helpers, \<^verbatim>\<open>is_prime\<close> and \<^verbatim>\<open>find_next_prime\<close>. Their argument type
  \<^verbatim>\<open>size_type\<close> (that is \<^verbatim>\<open>std::size_t\<close>) is modelled by \<^typ>\<open>nat\<close>: model and code
  agree on every run in which no intermediate value reaches \<open>2 ^ 64\<close>.

  \<^verbatim>\<open>is_prime\<close> answers 2 and 3 directly, rejects multiples of 2 and 3, and then runs
  \<^verbatim>\<open>
    size_type divisor = 6;
    while (divisor * divisor - 2 * divisor + 1 <= number) {
        if (number % (divisor - 1) == 0) return false;
        if (number % (divisor + 1) == 0) return false;
        divisor += 6;
    }
    return true;
  \<close>
  The loop is the recursive function \<open>is_prime_loop\<close>; it stops because the square of
  \<open>divisor - 1\<close> outgrows \<open>number\<close>. The code enters the loop with \<open>divisor = 6\<close>, and
  from 2 on the subtraction in the loop test does not go below zero.
\<close>

lemma square_step_ge: "(3::nat) \<le> d \<Longrightarrow> d \<le> d * d - 2 * d + 1"
proof -
  assume "3 \<le> d"
  then have "3 * d \<le> d * d" by (rule mult_le_mono1)
  then show ?thesis by arith
qed

function is_prime_loop :: "nat \<Rightarrow> nat \<Rightarrow> bool" where
  "is_prime_loop number divisor =
     (if divisor * divisor - 2 * divisor + 1 \<le> number then
        if number mod (divisor - 1) = 0 then False
        else if number mod (divisor + 1) = 0 then False
        else is_prime_loop number (divisor + 6)
      else True)"
  by pat_completeness auto
termination
proof (relation "measure (\<lambda>(number, divisor). number + 3 - divisor)")
  fix number divisor :: nat
  assume c: "divisor * divisor - 2 * divisor + 1 \<le> number"
  have "divisor \<le> number + 2"
  proof (cases "3 \<le> divisor")
    case True
    from square_step_ge [OF True] c show ?thesis by simp
  next
    case False
    then show ?thesis by simp
  qed
  then show "((number, divisor + 6), (number, divisor)) \<in> measure (\<lambda>(number, divisor). number + 3 - divisor)"
    by simp
qed simp

declare is_prime_loop.simps [simp del]

definition is_prime :: "nat \<Rightarrow> bool" where
  "is_prime number =
     (if number = 2 \<or> number = 3 then True
      else if number mod 2 = 0 \<or> number mod 3 = 0 then False
      else is_prime_loop number 6)"

text \<open>What a prime is: a number above 1 that no number between 2 and itself divides.\<close>

definition prime_nat :: "nat \<Rightarrow> bool" where
  "prime_nat p = (1 < p \<and> \<not> (\<exists>m\<in>{2..<p}. m dvd p))"

lemma square_step_gt: "(4::nat) \<le> d \<Longrightarrow> d + 1 < d * d - 2 * d + 1"
proof -
  assume "4 \<le> d"
  then have "4 * d \<le> d * d" by (rule mult_le_mono1)
  with \<open>4 \<le> d\<close> show ?thesis by arith
qed

lemma is_prime_loop_False:
  "\<not> is_prime_loop number divisor \<Longrightarrow> 4 \<le> divisor \<Longrightarrow>
     \<exists>m. 2 \<le> m \<and> m < number \<and> m dvd number"
proof (induction number divisor rule: is_prime_loop.induct)
  case (1 number divisor)
  from "1.prems"(1) have c: "divisor * divisor - 2 * divisor + 1 \<le> number"
    by (subst (asm) is_prime_loop.simps) (simp split: if_splits)
  from "1.prems"(2) have d3: "3 \<le> divisor" by simp
  from square_step_ge [OF d3] c have lo: "divisor - 1 < number" using d3 by simp
  from square_step_gt [OF "1.prems"(2)] c have hi: "divisor + 1 < number" by simp
  show ?case
  proof (cases "number mod (divisor - 1) = 0")
    case True
    then have "divisor - 1 dvd number" by (simp add: dvd_eq_mod_eq_0)
    with lo d3 show ?thesis by (intro exI [of _ "divisor - 1"]) simp
  next
    case n1: False
    show ?thesis
    proof (cases "number mod (divisor + 1) = 0")
      case True
      then have "divisor + 1 dvd number" by (simp add: dvd_eq_mod_eq_0)
      with hi d3 show ?thesis by (intro exI [of _ "divisor + 1"]) simp
    next
      case n2: False
      from "1.prems"(1) c n1 n2 have "\<not> is_prime_loop number (divisor + 6)"
        by (subst (asm) is_prime_loop.simps) simp
      moreover have "4 \<le> divisor + 6" by simp
      ultimately show ?thesis using "1.IH" c n1 n2 by simp
    qed
  qed
qed

lemma prime_nat_is_prime: "prime_nat p \<Longrightarrow> is_prime p"
proof (rule ccontr)
  assume p: "prime_nat p" and n: "\<not> is_prime p"
  from p have p1: "1 < p" and nd: "\<And>m. 2 \<le> m \<Longrightarrow> m < p \<Longrightarrow> \<not> m dvd p"
    by (auto simp: prime_nat_def)
  from n have ne: "p \<noteq> 2" "p \<noteq> 3" by (auto simp: is_prime_def)
  show False
  proof (cases "p mod 2 = 0 \<or> p mod 3 = 0")
    case True
    then have "2 dvd p \<or> 3 dvd p" by (simp add: dvd_eq_mod_eq_0)
    moreover from p1 ne have "2 < p" by simp
    moreover from p1 ne True have "3 < p" by presburger
    ultimately show False using nd [of 2] nd [of 3] by auto
  next
    case False
    with n ne have "\<not> is_prime_loop p 6" by (simp add: is_prime_def)
    from is_prime_loop_False [OF this] nd show False by auto
  qed
qed

lemma prime_factor_exists: "2 \<le> n \<Longrightarrow> \<exists>p. prime_nat p \<and> p dvd n"
proof (induction n rule: less_induct)
  case (less n)
  show ?case
  proof (cases "prime_nat n")
    case True
    then show ?thesis by auto
  next
    case False
    with less.prems obtain m where m: "2 \<le> m" "m < n" "m dvd n"
      by (auto simp: prime_nat_def)
    from less.IH [OF m(2) m(1)] obtain p where "prime_nat p" "p dvd m" by blast
    with m(3) show ?thesis by (blast intro: dvd_trans)
  qed
qed

lemma prime_nat_above: "\<exists>p. n \<le> p \<and> prime_nat p"
proof -
  have "2 \<le> fact n + (1::nat)" by (simp add: Suc_le_eq)
  from prime_factor_exists [OF this] obtain p where p: "prime_nat p" "p dvd fact n + 1"
    by blast
  have "n < p"
  proof (rule ccontr)
    assume "\<not> n < p"
    moreover from p(1) have "1 \<le> p" by (simp add: prime_nat_def)
    ultimately have "p dvd fact n" by (intro dvd_fact) simp_all
    with p(2) have "p dvd 1" using dvd_add_right_iff [of p "fact n" 1] by blast
    with p(1) show False by (simp add: prime_nat_def)
  qed
  with p(1) show ?thesis by (intro exI [of _ p]) simp
qed

lemma is_prime_above: "\<exists>p. n \<le> p \<and> is_prime p"
  using prime_nat_above [of n] prime_nat_is_prime by blast

text \<open>
  \<^verbatim>\<open>find_next_prime\<close> is \<^verbatim>\<open>while (!is_prime(n_)) n_++; return n_;\<close>. It stops because
  \<^verbatim>\<open>is_prime\<close> accepts every prime and there is a prime above every number.
\<close>

function find_next_prime :: "nat \<Rightarrow> nat" where
  "find_next_prime n = (if \<not> is_prime n then find_next_prime (n + 1) else n)"
  by pat_completeness auto
termination
proof (relation "measure (\<lambda>n. (LEAST p. n \<le> p \<and> is_prime p) - n)")
  fix n :: nat
  assume np: "\<not> is_prime n"
  let ?L = "LEAST p. n \<le> p \<and> is_prime p"
  let ?L' = "LEAST p. n + 1 \<le> p \<and> is_prime p"
  from is_prime_above [of n] have L: "n \<le> ?L \<and> is_prime ?L" by (rule exE) (rule LeastI)
  with np have "?L \<noteq> n" by auto
  with L have gt: "n + 1 \<le> ?L" by simp
  with L have "?L' \<le> ?L" by (intro Least_le) simp
  with gt show "((n + 1), n) \<in> measure (\<lambda>n. (LEAST p. n \<le> p \<and> is_prime p) - n)"
    by simp
qed simp

declare find_next_prime.simps [simp del]



section \<open>The table\<close>

text \<open>
  \<^verbatim>\<open>struct HashEntry { KeyType m_key; DataType m_data; }\<close> and the four data members of
  \<^verbatim>\<open>class HashTbl\<close>. A collision list (\<^verbatim>\<open>std::forward_list<entry_type>\<close>) is a list whose
  head is the front of the chain; \<^verbatim>\<open>m_table\<close> is the array of the chains.
  \<^verbatim>\<open>float m_load_factor\<close> is modelled by a real number, and the quotient
  \<^verbatim>\<open>static_cast<float>(m_count) / static_cast<float>(m_size)\<close> by exact division: rounding
  and the special float values are outside the model.
\<close>

record ('k, 'd) HashEntry =
  m_key :: 'k
  m_data :: 'd

record ('k, 'd) HashTbl =
  m_size :: nat
  m_count :: nat
  m_load_factor :: real
  m_table :: "('k, 'd) HashEntry list list"

definition DEFAULT_SIZE :: nat where
  "DEFAULT_SIZE = 10"

text \<open>\<^verbatim>\<open>HashTbl(size_type sz)\<close>: the capacity is \<^verbatim>\<open>find_next_prime(sz)\<close>, every chain is empty.\<close>

definition HashTbl_ctor :: "nat \<Rightarrow> ('k, 'd) HashTbl" where
  "HashTbl_ctor sz =
     \<lparr>m_size = find_next_prime sz, m_count = 0, m_load_factor = 1,
      m_table = replicate (find_next_prime sz) []\<rparr>"

text \<open>The getter and the setter \<^verbatim>\<open>max_load_factor\<close>.\<close>

definition max_load_factor :: "('k, 'd) HashTbl \<Rightarrow> real" where
  "max_load_factor t = m_load_factor t"

definition max_load_factor_set :: "('k, 'd) HashTbl \<Rightarrow> real \<Rightarrow> ('k, 'd) HashTbl" where
  "max_load_factor_set t mlf = t\<lparr>m_load_factor := mlf\<rparr>"

text \<open>
  The test that guards every call of \<^verbatim>\<open>rehash\<close>:
  \<^verbatim>\<open>(static_cast<float>(m_count) / static_cast<float>(m_size)) > m_load_factor\<close>.
\<close>

definition load_exceeded :: "('k, 'd) HashTbl \<Rightarrow> bool" where
  "load_exceeded t = (real (m_count t) / real (m_size t) > m_load_factor t)"

text \<open>
  \<^verbatim>\<open>std::find_if\<close> over a chain: the position of the first entry that satisfies the
  predicate, \<open>None\<close> for the end iterator.
\<close>

primrec find_if :: "('a \<Rightarrow> bool) \<Rightarrow> 'a list \<Rightarrow> nat option" where
  "find_if P [] = None"
| "find_if P (x # xs) = (if P x then Some 0 else map_option Suc (find_if P xs))"

text \<open>\<^verbatim>\<open>m_table[index].push_front(hashEntry); m_count++;\<close>\<close>

definition push_front_entry ::
  "('k, 'd) HashTbl \<Rightarrow> nat \<Rightarrow> ('k, 'd) HashEntry \<Rightarrow> ('k, 'd) HashTbl" where
  "push_front_entry t index hashEntry =
     t\<lparr>m_table := (m_table t)[index := hashEntry # m_table t ! index],
       m_count := m_count t + 1\<rparr>"

text \<open>\<^verbatim>\<open>*iterator = hashEntry;\<close> with the iterator at position \<open>j\<close> of chain \<open>index\<close>.\<close>

definition assign_entry ::
  "('k, 'd) HashTbl \<Rightarrow> nat \<Rightarrow> nat \<Rightarrow> ('k, 'd) HashEntry \<Rightarrow> ('k, 'd) HashTbl" where
  "assign_entry t index j hashEntry =
     t\<lparr>m_table := (m_table t)[index := (m_table t ! index)[j := hashEntry]]\<rparr>"

text \<open>
  \<^verbatim>\<open>insert\<close> and \<^verbatim>\<open>rehash\<close> call each other: \<^verbatim>\<open>insert\<close> calls \<^verbatim>\<open>rehash\<close> when the load
  test succeeds, and \<^verbatim>\<open>rehash\<close> moves every entry of the old array into the new one with
  the public \<^verbatim>\<open>insert\<close>, which runs the load test again. Nothing in the code bounds the
  depth of this recursion, so the model carries fuel: the first argument is the number
  of nested \<^verbatim>\<open>rehash\<close> calls still allowed, and \<open>None\<close> says that this was not enough.
  A call that returns \<open>None\<close> for every amount of fuel is a call that never returns.

  \<open>hashFunc\<close> and \<open>keyEqual\<close> are the template parameters \<^verbatim>\<open>KeyHash\<close> and \<^verbatim>\<open>KeyEqual\<close>.
  \<open>insert_each\<close> is the loop \<^verbatim>\<open>for (const auto& e : ...) insert(e.m_key, e.m_data);\<close>; in
  \<^verbatim>\<open>rehash\<close> it runs over the chains \<open>0, ..., old_m_size - 1\<close> of the old array in turn.
  The result of \<^verbatim>\<open>insert\<close> is its \<^verbatim>\<open>bool\<close> and the table it leaves.
\<close>

fun insert_ht ::
    "nat \<Rightarrow> ('k \<Rightarrow> nat) \<Rightarrow> ('k \<Rightarrow> 'k \<Rightarrow> bool) \<Rightarrow> ('k, 'd) HashTbl \<Rightarrow> 'k \<Rightarrow> 'd \<Rightarrow>
       (bool \<times> ('k, 'd) HashTbl) option"
  and rehash ::
    "nat \<Rightarrow> ('k \<Rightarrow> nat) \<Rightarrow> ('k \<Rightarrow> 'k \<Rightarrow> bool) \<Rightarrow> ('k, 'd) HashTbl \<Rightarrow> ('k, 'd) HashTbl option"
  and insert_each ::
    "nat \<Rightarrow> ('k \<Rightarrow> nat) \<Rightarrow> ('k \<Rightarrow> 'k \<Rightarrow> bool) \<Rightarrow> ('k, 'd) HashTbl \<Rightarrow>
       ('k, 'd) HashEntry list \<Rightarrow> ('k, 'd) HashTbl option"
where
  "insert_ht fuel hashFunc keyEqual t key new_data =
     (let hashEntry = \<lparr>m_key = key, m_data = new_data\<rparr>;
          index = hashFunc key mod m_size t
      in if m_table t ! index = [] then
           (let t1 = push_front_entry t index hashEntry
            in if load_exceeded t1 then map_option (Pair True) (rehash fuel hashFunc keyEqual t1)
               else Some (True, t1))
         else
           (case find_if (\<lambda>hashEntry. keyEqual key (m_key hashEntry)) (m_table t ! index) of
              None \<Rightarrow>
                (let t1 = push_front_entry t index hashEntry
                 in if load_exceeded t1
                    then map_option (Pair True) (rehash fuel hashFunc keyEqual t1)
                    else Some (True, t1))
            | Some j \<Rightarrow>
                (let t1 = assign_entry t index j hashEntry
                 in if load_exceeded t1
                    then map_option (Pair False) (rehash fuel hashFunc keyEqual t1)
                    else Some (False, t1))))"
| "rehash 0 hashFunc keyEqual t = None"
| "rehash (Suc fuel) hashFunc keyEqual t =
     (let old_m_size = m_size t;
          old_m_table = m_table t;
          t1 = t\<lparr>m_size := find_next_prime (2 * m_size t),
                 m_table := replicate (find_next_prime (2 * m_size t)) [],
                 m_count := 0\<rparr>
      in insert_each fuel hashFunc keyEqual t1
           (concat (map (\<lambda>index. old_m_table ! index) [0..<old_m_size])))"
| "insert_each fuel hashFunc keyEqual t [] = Some t"
| "insert_each fuel hashFunc keyEqual t (e # es) =
     (case insert_ht fuel hashFunc keyEqual t (m_key e) (m_data e) of
        None \<Rightarrow> None
      | Some (b, t') \<Rightarrow> insert_each fuel hashFunc keyEqual t' es)"

declare insert_ht.simps [simp del]

text \<open>
  The calls of the public interface that only read are functions of the table; the
  others return the table they leave. \<^verbatim>\<open>retrieve\<close> takes the caller's \<^verbatim>\<open>data_item_\<close> and
  returns its \<^verbatim>\<open>bool\<close> with the content of \<^verbatim>\<open>data_item_\<close> afterwards.
\<close>

definition retrieve ::
  "('k \<Rightarrow> nat) \<Rightarrow> ('k \<Rightarrow> 'k \<Rightarrow> bool) \<Rightarrow> ('k, 'd) HashTbl \<Rightarrow> 'k \<Rightarrow> 'd \<Rightarrow> bool \<times> 'd" where
  "retrieve hashFunc keyEqual t key data_item =
     (let index = hashFunc key mod m_size t
      in case find_if (\<lambda>hashEntry. keyEqual key (m_key hashEntry)) (m_table t ! index) of
           Some j \<Rightarrow> (True, m_data (m_table t ! index ! j))
         | None \<Rightarrow> (False, data_item))"

text \<open>
  \<^verbatim>\<open>erase\<close>: \<^verbatim>\<open>remove_if\<close> drops every entry of the chain that satisfies the predicate,
  and \<^verbatim>\<open>m_count--\<close> on a \<^verbatim>\<open>size_t\<close> wraps around at zero.
\<close>

definition size_dec :: "nat \<Rightarrow> nat" where
  "size_dec n = (if n = 0 then 2 ^ 64 - 1 else n - 1)"

definition erase ::
  "('k \<Rightarrow> nat) \<Rightarrow> ('k \<Rightarrow> 'k \<Rightarrow> bool) \<Rightarrow> ('k, 'd) HashTbl \<Rightarrow> 'k \<Rightarrow> bool \<times> ('k, 'd) HashTbl" where
  "erase hashFunc keyEqual t key =
     (let index = hashFunc key mod m_size t
      in case find_if (\<lambda>hashEntry. keyEqual key (m_key hashEntry)) (m_table t ! index) of
           Some j \<Rightarrow>
             (True,
              t\<lparr>m_table := (m_table t)[index :=
                   filter (\<lambda>hashEntry. \<not> keyEqual key (m_key hashEntry)) (m_table t ! index)],
                m_count := size_dec (m_count t)\<rparr>)
         | None \<Rightarrow> (False, t))"

definition clear :: "('k, 'd) HashTbl \<Rightarrow> ('k, 'd) HashTbl" where
  "clear t = t\<lparr>m_table := map (\<lambda>index. []) [0..<m_size t] @ drop (m_size t) (m_table t),
              m_count := 0\<rparr>"

definition empty_ht :: "('k, 'd) HashTbl \<Rightarrow> bool" where
  "empty_ht t = (m_count t = 0)"

definition size_ht :: "('k, 'd) HashTbl \<Rightarrow> nat" where
  "size_ht t = m_count t"

text \<open>
  \<^verbatim>\<open>count\<close>: zero when \<^verbatim>\<open>find_if\<close> reaches the end of the chain, otherwise
  \<^verbatim>\<open>std::distance(m_table[index].begin(), m_table[index].end())\<close>.
\<close>

definition count_ht ::
  "('k \<Rightarrow> nat) \<Rightarrow> ('k \<Rightarrow> 'k \<Rightarrow> bool) \<Rightarrow> ('k, 'd) HashTbl \<Rightarrow> 'k \<Rightarrow> nat" where
  "count_ht hashFunc keyEqual t key =
     (let index = hashFunc key mod m_size t
      in case find_if (\<lambda>hashEntry. keyEqual key (m_key hashEntry)) (m_table t ! index) of
           None \<Rightarrow> 0
         | Some j \<Rightarrow> length (m_table t ! index))"

text \<open>
  A \<^verbatim>\<open>DataType&\<close> into the table is the place of the entry: the number of the chain and
  the position in it. \<open>deref\<close> reads through such a reference and \<open>assign_ref\<close> writes
  through it.
\<close>

type_synonym data_ref = "nat \<times> nat"

definition deref :: "('k, 'd) HashTbl \<Rightarrow> data_ref \<Rightarrow> 'd" where
  "deref t r = m_data (m_table t ! fst r ! snd r)"

definition assign_ref :: "('k, 'd) HashTbl \<Rightarrow> data_ref \<Rightarrow> 'd \<Rightarrow> ('k, 'd) HashTbl" where
  "assign_ref t r v =
     t\<lparr>m_table := (m_table t)[fst r :=
          (m_table t ! fst r)[snd r := (m_table t ! fst r ! snd r)\<lparr>m_data := v\<rparr>]]\<rparr>"

text \<open>\<^verbatim>\<open>at\<close> returns the reference or throws \<^verbatim>\<open>std::out_of_range\<close>.\<close>

datatype error = out_of_range

definition at_ht ::
  "('k \<Rightarrow> nat) \<Rightarrow> ('k \<Rightarrow> 'k \<Rightarrow> bool) \<Rightarrow> ('k, 'd) HashTbl \<Rightarrow> 'k \<Rightarrow>
     (error + data_ref) \<times> ('k, 'd) HashTbl" where
  "at_ht hashFunc keyEqual t key =
     (let index = hashFunc key mod m_size t
      in case find_if (\<lambda>hashEntry. keyEqual key (m_key hashEntry)) (m_table t ! index) of
           Some j \<Rightarrow> (Inr (index, j), t)
         | None \<Rightarrow> (Inl out_of_range, t))"

text \<open>
  \<^verbatim>\<open>operator[]\<close>. Its predicate compares with \<^verbatim>\<open>key_ == hashEntry.m_key\<close>, not with
  \<^verbatim>\<open>keyEqual\<close>; \<open>dflt\<close> is \<^verbatim>\<open>DataType{}\<close>. After the insertion the operator calls itself.
\<close>

partial_function (option) index_access ::
  "nat \<Rightarrow> ('k \<Rightarrow> nat) \<Rightarrow> ('k \<Rightarrow> 'k \<Rightarrow> bool) \<Rightarrow> 'd \<Rightarrow> ('k, 'd) HashTbl \<Rightarrow> 'k \<Rightarrow>
     (data_ref \<times> ('k, 'd) HashTbl) option"
where
  "index_access fuel hashFunc keyEqual dflt t key =
     (case find_if (\<lambda>hashEntry. key = m_key hashEntry) (m_table t ! (hashFunc key mod m_size t)) of
        Some j \<Rightarrow> Some ((hashFunc key mod m_size t, j), t)
      | None \<Rightarrow>
          (case insert_ht fuel hashFunc keyEqual t key dflt of
             None \<Rightarrow> None
           | Some (b, t') \<Rightarrow> index_access fuel hashFunc keyEqual dflt t' key))"

declare index_access.simps [code]

text \<open>
  The constructor from an initializer list delegates to \<^verbatim>\<open>HashTbl()\<close>, that is to
  \<^verbatim>\<open>HashTbl(DEFAULT_SIZE)\<close>, and inserts the elements. The assignment of an initializer
  list resets all four members, with \<^verbatim>\<open>find_next_prime\<close> of the number of elements as the
  new \<^verbatim>\<open>m_size\<close>, and inserts the elements.
\<close>

definition HashTbl_ilist ::
  "nat \<Rightarrow> ('k \<Rightarrow> nat) \<Rightarrow> ('k \<Rightarrow> 'k \<Rightarrow> bool) \<Rightarrow> ('k, 'd) HashEntry list \<Rightarrow> ('k, 'd) HashTbl option" where
  "HashTbl_ilist fuel hashFunc keyEqual ilist =
     insert_each fuel hashFunc keyEqual (HashTbl_ctor DEFAULT_SIZE) ilist"

definition assign_ilist ::
  "nat \<Rightarrow> ('k \<Rightarrow> nat) \<Rightarrow> ('k \<Rightarrow> 'k \<Rightarrow> bool) \<Rightarrow> ('k, 'd) HashTbl \<Rightarrow> ('k, 'd) HashEntry list \<Rightarrow>
     ('k, 'd) HashTbl option" where
  "assign_ilist fuel hashFunc keyEqual t ilist =
     insert_each fuel hashFunc keyEqual
       (t\<lparr>m_size := find_next_prime (length ilist),
          m_table := replicate (find_next_prime (length ilist)) [],
          m_count := 0,
          m_load_factor := 1\<rparr>)
       ilist"

section \<open>Invariant, content and the notions used by the claims\<close>

text \<open>
  The three branches of \<^verbatim>\<open>insert\<close> end in the same load test. \<open>insert_step\<close> is what
  they do before it: the result of \<^verbatim>\<open>insert\<close> and the table on which the load test runs
  (lemma \<open>insert_ht_step\<close> below).
\<close>

definition insert_step ::
  "('k \<Rightarrow> nat) \<Rightarrow> ('k \<Rightarrow> 'k \<Rightarrow> bool) \<Rightarrow> ('k, 'd) HashTbl \<Rightarrow> 'k \<Rightarrow> 'd \<Rightarrow> bool \<times> ('k, 'd) HashTbl" where
  "insert_step hashFunc keyEqual t key new_data =
     (case find_if (\<lambda>hashEntry. keyEqual key (m_key hashEntry)) (m_table t ! (hashFunc key mod m_size t)) of
        None \<Rightarrow> (True, push_front_entry t (hashFunc key mod m_size t) \<lparr>m_key = key, m_data = new_data\<rparr>)
      | Some j \<Rightarrow> (False, assign_entry t (hashFunc key mod m_size t) j \<lparr>m_key = key, m_data = new_data\<rparr>))"

text \<open>
  \<open>entries\<close> are the entries of all the chains, chain after chain. \<open>table_shape\<close> says
  that the array has \<^verbatim>\<open>m_size\<close> chains and at least one. \<open>hash_inv\<close> is the invariant of
  the table for a hash function: the shape, \<^verbatim>\<open>m_count\<close> is the number of entries, every
  entry is in the chain that the hash of its key selects, and no two entries have the
  same key. \<open>contents\<close> is the map from keys to values that the table stands for.
\<close>

definition entries :: "('k, 'd) HashTbl \<Rightarrow> ('k, 'd) HashEntry list" where
  "entries t = concat (m_table t)"

definition table_shape :: "('k, 'd) HashTbl \<Rightarrow> bool" where
  "table_shape t = (0 < m_size t \<and> length (m_table t) = m_size t)"

definition hash_inv :: "('k \<Rightarrow> nat) \<Rightarrow> ('k, 'd) HashTbl \<Rightarrow> bool" where
  "hash_inv hashFunc t =
     (table_shape t \<and>
      m_count t = length (entries t) \<and>
      (\<forall>i\<in>{0..<m_size t}. \<forall>e\<in>set (m_table t ! i). hashFunc (m_key e) mod m_size t = i) \<and>
      distinct (map m_key (entries t)))"

definition contents :: "('k, 'd) HashTbl \<Rightarrow> 'k \<rightharpoonup> 'd" where
  "contents t = map_of (map (\<lambda>e. (m_key e, m_data e)) (entries t))"

text \<open>What the loop \<open>insert_each\<close> does to the content, entry after entry.\<close>

definition put_entry :: "('k, 'd) HashEntry \<Rightarrow> ('k \<rightharpoonup> 'd) \<Rightarrow> ('k \<rightharpoonup> 'd)" where
  "put_entry e m = m(m_key e \<mapsto> m_data e)"

text \<open>
  \<open>potential\<close> bounds both the counter and the number of entries; one \<^verbatim>\<open>insert\<close> raises
  it by at most one. \<open>room C t n\<close> says that \<open>n\<close> doublings of the capacity of \<open>t\<close> make
  room for \<open>C\<close> entries under the load factor of \<open>t\<close>.
\<close>

definition potential :: "('k, 'd) HashTbl \<Rightarrow> nat" where
  "potential t = max (m_count t) (length (entries t))"

definition room :: "nat \<Rightarrow> ('k, 'd) HashTbl \<Rightarrow> nat \<Rightarrow> bool" where
  "room C t n = (real C \<le> m_load_factor t * real (m_size t * 2 ^ n))"



text \<open>
  A caller's sequence of \<^verbatim>\<open>insert\<close> and \<^verbatim>\<open>erase\<close> calls; \<open>run_calls\<close> makes the calls in
  turn and collects the \<^verbatim>\<open>bool\<close> results. \<open>inserted\<close> and \<open>erased\<close> count the calls of
  each kind that returned \<^verbatim>\<open>true\<close>.
\<close>

datatype ('k, 'd) call = is_Insert: Insert 'k 'd | Erase 'k

fun run_calls ::
  "nat \<Rightarrow> ('k \<Rightarrow> nat) \<Rightarrow> ('k \<Rightarrow> 'k \<Rightarrow> bool) \<Rightarrow> ('k, 'd) HashTbl \<Rightarrow> ('k, 'd) call list \<Rightarrow>
     (bool list \<times> ('k, 'd) HashTbl) option" where
  "run_calls fuel hashFunc keyEqual t [] = Some ([], t)"
| "run_calls fuel hashFunc keyEqual t (Insert key v # cs) =
     (case insert_ht fuel hashFunc keyEqual t key v of
        None \<Rightarrow> None
      | Some (b, t') \<Rightarrow>
          (case run_calls fuel hashFunc keyEqual t' cs of
             None \<Rightarrow> None
           | Some (bs, t'') \<Rightarrow> Some (b # bs, t'')))"
| "run_calls fuel hashFunc keyEqual t (Erase key # cs) =
     (case erase hashFunc keyEqual t key of
        (b, t') \<Rightarrow>
          (case run_calls fuel hashFunc keyEqual t' cs of
             None \<Rightarrow> None
           | Some (bs, t'') \<Rightarrow> Some (b # bs, t'')))"

definition inserted :: "('k, 'd) call list \<Rightarrow> bool list \<Rightarrow> nat" where
  "inserted cs bs = length (filter (\<lambda>(c, b). is_Insert c \<and> b) (zip cs bs))"

definition erased :: "('k, 'd) call list \<Rightarrow> bool list \<Rightarrow> nat" where
  "erased cs bs = length (filter (\<lambda>(c, b). \<not> is_Insert c \<and> b) (zip cs bs))"

section \<open>Facts about the helpers\<close>

lemma find_next_prime_is_prime: "is_prime (find_next_prime n)"
  by (induction n rule: find_next_prime.induct) (subst find_next_prime.simps, simp)

lemma find_next_prime_ge: "n \<le> find_next_prime n"
proof (induction n rule: find_next_prime.induct)
  case (1 n)
  show ?case
  proof (cases "is_prime n")
    case True
    then show ?thesis by (subst find_next_prime.simps) simp
  next
    case False
    with "1.IH" have "n + 1 \<le> find_next_prime (n + 1)" by simp
    with False show ?thesis by (subst find_next_prime.simps) simp
  qed
qed

lemma find_next_prime_pos: "0 < find_next_prime n"
proof -
  have "\<not> is_prime 0" by (simp add: is_prime_def)
  with find_next_prime_is_prime [of n] show ?thesis by (cases "find_next_prime n = 0") auto
qed

lemma find_if_None_iff: "find_if P xs = None \<longleftrightarrow> (\<forall>x\<in>set xs. \<not> P x)"
  by (induction xs) auto

lemma find_if_SomeD:
  "find_if P xs = Some j \<Longrightarrow> j < length xs \<and> P (xs ! j) \<and> (\<forall>i<j. \<not> P (xs ! i))"
proof (induction xs arbitrary: j)
  case Nil
  then show ?case by simp
next
  case (Cons x xs)
  show ?case
  proof (cases "P x")
    case True
    with Cons.prems show ?thesis by simp
  next
    case False
    with Cons.prems obtain j' where j': "find_if P xs = Some j'" "j = Suc j'" by auto
    from Cons.IH [OF j'(1)] False j'(2) show ?thesis by (auto simp: less_Suc_eq_0_disj)
  qed
qed

lemma find_if_Some_ex: "(\<exists>j. find_if P xs = Some j) \<longleftrightarrow> (\<exists>x\<in>set xs. P x)"
  using find_if_None_iff [of P xs] by (cases "find_if P xs") auto

lemma insert_ht_step:
  "insert_ht fuel hashFunc keyEqual t key new_data =
     (case insert_step hashFunc keyEqual t key new_data of
        (b, t1) \<Rightarrow>
          if load_exceeded t1 then map_option (Pair b) (rehash fuel hashFunc keyEqual t1)
          else Some (b, t1))"
proof (cases "m_table t ! (hashFunc key mod m_size t) = []")
  case True
  then show ?thesis
    by (subst insert_ht.simps) (simp add: insert_step_def Let_def)
next
  case False
  then show ?thesis
    by (subst insert_ht.simps) (simp add: insert_step_def Let_def split: option.splits)
qed

lemma concat_list_update:
  "i < length xss \<Longrightarrow> concat (xss[i := b]) = concat (take i xss) @ b @ concat (drop (Suc i) xss)"
  by (simp add: upd_conv_take_nth_drop)

lemma concat_split_nth:
  "i < length xss \<Longrightarrow> concat xss = concat (take i xss) @ xss ! i @ concat (drop (Suc i) xss)"
  using concat_list_update [of i xss "xss ! i"] by simp

section \<open>Invariant and content of a table\<close>

lemma map_of_entries_Some:
  "distinct (map m_key es) \<Longrightarrow>
     map_of (map (\<lambda>e. (m_key e, m_data e)) es) k = Some v \<longleftrightarrow> \<lparr>m_key = k, m_data = v\<rparr> \<in> set es"
proof -
  assume d: "distinct (map m_key es)"
  have "map fst (map (\<lambda>e. (m_key e, m_data e)) es) = map m_key es" by simp
  with d have "distinct (map fst (map (\<lambda>e. (m_key e, m_data e)) es))" by (simp add: comp_def)
  then have "map_of (map (\<lambda>e. (m_key e, m_data e)) es) k = Some v
      \<longleftrightarrow> (k, v) \<in> set (map (\<lambda>e. (m_key e, m_data e)) es)"
    by (rule map_of_eq_Some_iff)
  also have "\<dots> \<longleftrightarrow> (\<exists>e\<in>set es. m_key e = k \<and> m_data e = v)" by auto
  also have "\<dots> \<longleftrightarrow> \<lparr>m_key = k, m_data = v\<rparr> \<in> set es"
  proof
    assume "\<exists>e\<in>set es. m_key e = k \<and> m_data e = v"
    then obtain e where e: "e \<in> set es" "m_key e = k" "m_data e = v" by blast
    from e(2,3) have "\<lparr>m_key = k, m_data = v\<rparr> = e" by auto
    with e(1) show "\<lparr>m_key = k, m_data = v\<rparr> \<in> set es" by simp
  next
    assume "\<lparr>m_key = k, m_data = v\<rparr> \<in> set es"
    then show "\<exists>e\<in>set es. m_key e = k \<and> m_data e = v" by (intro bexI [of _ "\<lparr>m_key = k, m_data = v\<rparr>"]) simp_all
  qed
  finally show ?thesis .
qed

lemma map_of_entries_None:
  "map_of (map (\<lambda>e. (m_key e, m_data e)) es) k = None \<longleftrightarrow> k \<notin> m_key ` set es"
  by (simp add: map_of_eq_None_iff image_image)

lemma option_eqI: "(\<And>y. a = Some y \<longleftrightarrow> b = Some y) \<Longrightarrow> a = b"
  by (cases a; cases b) auto

lemma map_of_entries_upd:
  assumes "distinct (map m_key es)" and "distinct (map m_key es')"
    and "set es' = insert \<lparr>m_key = k, m_data = v\<rparr> {e \<in> set es. m_key e \<noteq> k}"
  shows "map_of (map (\<lambda>e. (m_key e, m_data e)) es') =
         (map_of (map (\<lambda>e. (m_key e, m_data e)) es))(k \<mapsto> v)"
proof (rule ext, rule option_eqI)
  fix x y
  let ?m = "map_of (map (\<lambda>e. (m_key e, m_data e)) es)"
  let ?m' = "map_of (map (\<lambda>e. (m_key e, m_data e)) es')"
  have "?m' x = Some y \<longleftrightarrow> \<lparr>m_key = x, m_data = y\<rparr> \<in> set es'"
    by (rule map_of_entries_Some [OF assms(2)])
  also have "\<dots> \<longleftrightarrow> (x = k \<and> y = v) \<or> (x \<noteq> k \<and> \<lparr>m_key = x, m_data = y\<rparr> \<in> set es)"
    unfolding assms(3) by auto
  also have "\<dots> \<longleftrightarrow> (x = k \<and> y = v) \<or> (x \<noteq> k \<and> ?m x = Some y)"
    by (simp only: map_of_entries_Some [OF assms(1)])
  also have "\<dots> \<longleftrightarrow> (?m(k \<mapsto> v)) x = Some y" by auto
  finally show "?m' x = Some y \<longleftrightarrow> (?m(k \<mapsto> v)) x = Some y" .
qed

lemma map_of_entries_del:
  fixes es es' :: "('k, 'd) HashEntry list"
  assumes "distinct (map m_key es)" and "distinct (map m_key es')"
    and "set es' = {e \<in> set es. m_key e \<noteq> k}"
  shows "map_of (map (\<lambda>e. (m_key e, m_data e)) es') =
         (map_of (map (\<lambda>e. (m_key e, m_data e)) es))(k := None)"
proof (rule ext, rule option_eqI)
  fix x y
  let ?m = "map_of (map (\<lambda>e. (m_key e, m_data e)) es)"
  let ?m' = "map_of (map (\<lambda>e. (m_key e, m_data e)) es')"
  have "?m' x = Some y \<longleftrightarrow> \<lparr>m_key = x, m_data = y\<rparr> \<in> set es'"
    by (rule map_of_entries_Some [OF assms(2)])
  also have "\<dots> \<longleftrightarrow> x \<noteq> k \<and> \<lparr>m_key = x, m_data = y\<rparr> \<in> set es"
    unfolding assms(3) by auto
  also have "\<dots> \<longleftrightarrow> x \<noteq> k \<and> ?m x = Some y"
    by (simp only: map_of_entries_Some [OF assms(1)])
  also have "\<dots> \<longleftrightarrow> (?m(k := None)) x = Some y" by auto
  finally show "?m' x = Some y \<longleftrightarrow> (?m(k := None)) x = Some y" .
qed

text \<open>Under the invariant a key can only sit in the chain its hash selects.\<close>

lemma entry_in_its_chain:
  assumes "hash_inv hashFunc t" and "e \<in> set (entries t)"
  shows "e \<in> set (m_table t ! (hashFunc (m_key e) mod m_size t))"
proof -
  from assms(2) obtain c where "c \<in> set (m_table t)" "e \<in> set c"
    by (auto simp: entries_def)
  then obtain i where i: "i < length (m_table t)" "e \<in> set (m_table t ! i)"
    by (metis in_set_conv_nth)
  with assms(1) have "hashFunc (m_key e) mod m_size t = i"
    by (simp add: hash_inv_def table_shape_def)
  with i show ?thesis by simp
qed

lemma chain_subset_entries:
  "i < length (m_table t) \<Longrightarrow> set (m_table t ! i) \<subseteq> set (entries t)"
proof
  fix x
  assume "i < length (m_table t)" and "x \<in> set (m_table t ! i)"
  moreover from \<open>i < length (m_table t)\<close> have "m_table t ! i \<in> set (m_table t)" by (rule nth_mem)
  ultimately show "x \<in> set (entries t)" unfolding entries_def set_concat by blast
qed

lemma index_in_range: "table_shape t \<Longrightarrow> hashFunc key mod m_size t < length (m_table t)"
  by (simp add: table_shape_def)

lemma keys_distinct_unique:
  assumes "distinct (map m_key es)" and "old \<in> set es"
  shows "{x \<in> set es. m_key x \<noteq> m_key old} = set es - {old}"
proof -
  from assms(1) have "inj_on m_key (set es)" by (simp add: distinct_map)
  with assms(2) have "x \<in> set es \<Longrightarrow> m_key x = m_key old \<longleftrightarrow> x = old" for x
    by (auto dest: inj_onD)
  then show ?thesis by blast
qed

lemma entries_overwrite:
  fixes es :: "('k, 'd) HashEntry list"
  assumes d: "distinct (map m_key es)" and p: "p < length es" and k: "m_key (es ! p) = k"
  shows "map m_key (es[p := \<lparr>m_key = k, m_data = v\<rparr>]) = map m_key es"
    and "set (es[p := \<lparr>m_key = k, m_data = v\<rparr>]) =
         insert \<lparr>m_key = k, m_data = v\<rparr> {x \<in> set es. m_key x \<noteq> k}"
proof -
  have "map m_key (es[p := \<lparr>m_key = k, m_data = v\<rparr>]) = (map m_key es)[p := k]"
    by (simp add: map_update)
  also from p k have "\<dots> = (map m_key es)[p := map m_key es ! p]" by simp
  also have "\<dots> = map m_key es" by (rule list_update_id)
  finally show "map m_key (es[p := \<lparr>m_key = k, m_data = v\<rparr>]) = map m_key es" .
  from d have "distinct es" by (simp add: distinct_map)
  then have "set (es[p := \<lparr>m_key = k, m_data = v\<rparr>]) =
      insert \<lparr>m_key = k, m_data = v\<rparr> (set es - {es ! p})"
    using p by (rule set_update_distinct)
  also from p have "es ! p \<in> set es" by simp
  from keys_distinct_unique [OF d this] k
  have "set es - {es ! p} = {x \<in> set es. m_key x \<noteq> k}" by simp
  finally show "set (es[p := \<lparr>m_key = k, m_data = v\<rparr>]) =
         insert \<lparr>m_key = k, m_data = v\<rparr> {x \<in> set es. m_key x \<noteq> k}" .
qed

lemma concat_update_flat:
  assumes "i < length xss" and "j < length (xss ! i)"
  shows "concat (xss[i := (xss ! i)[j := e]]) = (concat xss)[length (concat (take i xss)) + j := e]"
proof -
  have "(concat xss)[length (concat (take i xss)) + j := e] =
      (concat (take i xss) @ xss ! i @ concat (drop (Suc i) xss))[length (concat (take i xss)) + j := e]"
    using concat_split_nth [OF assms(1)] by simp
  also have "\<dots> = concat (take i xss) @ (xss ! i)[j := e] @ concat (drop (Suc i) xss)"
    using assms(2) by (simp add: list_update_append)
  also have "\<dots> = concat (xss[i := (xss ! i)[j := e]])"
    using concat_list_update [OF assms(1)] by simp
  finally show ?thesis by simp
qed

lemma concat_nth_flat:
  assumes "i < length xss" and "j < length (xss ! i)"
  shows "length (concat (take i xss)) + j < length (concat xss)"
    and "concat xss ! (length (concat (take i xss)) + j) = xss ! i ! j"
proof -
  have eq: "concat xss = concat (take i xss) @ xss ! i @ concat (drop (Suc i) xss)"
    by (rule concat_split_nth [OF assms(1)])
  have "length (concat xss) = length (concat (take i xss)) + (length (xss ! i) + length (concat (drop (Suc i) xss)))"
    by (subst eq) simp
  with assms(2) show "length (concat (take i xss)) + j < length (concat xss)" by simp
  have "concat xss ! (length (concat (take i xss)) + j) =
      (concat (take i xss) @ xss ! i @ concat (drop (Suc i) xss)) ! (length (concat (take i xss)) + j)"
    using eq by simp
  also have "\<dots> = xss ! i ! j" using assms(2) by (simp add: nth_append)
  finally show "concat xss ! (length (concat (take i xss)) + j) = xss ! i ! j" .
qed

lemma fresh_table_inv:
  assumes "0 < n"
  shows "hash_inv hashFunc (t\<lparr>m_size := n, m_table := replicate n [], m_count := 0\<rparr>)"
    and "contents (t\<lparr>m_size := n, m_table := replicate n [], m_count := 0\<rparr>) = Map.empty"
    and "entries (t\<lparr>m_size := n, m_table := replicate n [], m_count := 0\<rparr>) = []"
  using assms by (simp_all add: hash_inv_def table_shape_def contents_def entries_def)

lemma HashTbl_ctor_inv:
  "hash_inv hashFunc (HashTbl_ctor sz)" "contents (HashTbl_ctor sz) = Map.empty"
  "entries (HashTbl_ctor sz) = []"
  using find_next_prime_pos [of sz]
  by (simp_all add: hash_inv_def table_shape_def contents_def entries_def HashTbl_ctor_def)

text \<open>The first branch of \<^verbatim>\<open>insert\<close>: no entry of the chain has the key.\<close>

lemma push_front_entry_inv:
  assumes inv: "hash_inv hashFunc t"
    and absent: "key \<notin> m_key ` set (m_table t ! (hashFunc key mod m_size t))"
  shows "hash_inv hashFunc (push_front_entry t (hashFunc key mod m_size t) \<lparr>m_key = key, m_data = v\<rparr>)"
    and "contents (push_front_entry t (hashFunc key mod m_size t) \<lparr>m_key = key, m_data = v\<rparr>) =
         (contents t)(key \<mapsto> v)"
    and "contents t key = None"
proof -
  let ?i = "hashFunc key mod m_size t"
  let ?e = "\<lparr>m_key = key, m_data = v\<rparr>"
  let ?t1 = "push_front_entry t ?i ?e"
  from inv have shape: "table_shape t" by (simp add: hash_inv_def)
  then have i: "?i < length (m_table t)" by (rule index_in_range)
  have nokey: "key \<notin> m_key ` set (entries t)"
  proof
    assume "key \<in> m_key ` set (entries t)"
    then obtain x where x: "x \<in> set (entries t)" "m_key x = key" by auto
    from entry_in_its_chain [OF inv x(1)] x(2) absent show False by auto
  qed
  then show "contents t key = None" by (simp add: contents_def map_of_entries_None)
  have e1: "entries ?t1 = concat (take ?i (m_table t)) @ (?e # m_table t ! ?i) @ concat (drop (Suc ?i) (m_table t))"
    using concat_list_update [OF i] by (simp add: entries_def push_front_entry_def)
  have e0: "entries t = concat (take ?i (m_table t)) @ m_table t ! ?i @ concat (drop (Suc ?i) (m_table t))"
    using concat_split_nth [OF i] by (simp add: entries_def)
  have set1: "set (entries ?t1) = insert ?e (set (entries t))"
    by (subst e1, subst e0) auto
  have len1: "length (entries ?t1) = length (entries t) + 1"
    by (subst e1, subst e0) simp
  from inv have d0: "distinct (map m_key (entries t))" by (simp add: hash_inv_def)
  have d1: "distinct (map m_key (entries ?t1))"
    using d0 nokey unfolding e1 e0 by auto
  have place: "\<forall>i\<in>{0..<m_size ?t1}. \<forall>e\<in>set (m_table ?t1 ! i). hashFunc (m_key e) mod m_size ?t1 = i"
  proof (intro ballI)
    fix i e
    assume "i \<in> {0..<m_size ?t1}" and e: "e \<in> set (m_table ?t1 ! i)"
    then have i': "i < m_size ?t1" by simp
    from i' have i'': "i < m_size t" by (simp add: push_front_entry_def)
    show "hashFunc (m_key e) mod m_size ?t1 = i"
    proof (cases "i = ?i")
      case True
      with e i have "e = ?e \<or> e \<in> set (m_table t ! i)" by (auto simp: push_front_entry_def)
      with inv i'' True show ?thesis by (auto simp: hash_inv_def push_front_entry_def)
    next
      case False
      with e have "e \<in> set (m_table t ! i)" by (simp add: push_front_entry_def)
      with inv i'' show ?thesis by (simp add: hash_inv_def push_front_entry_def)
    qed
  qed
  from shape have "table_shape ?t1" by (simp add: table_shape_def push_front_entry_def)
  moreover from inv len1 have "m_count ?t1 = length (entries ?t1)"
    by (simp add: hash_inv_def push_front_entry_def)
  ultimately show "hash_inv hashFunc ?t1" using place d1 by (simp add: hash_inv_def)
  from nokey have "{x \<in> set (entries t). m_key x \<noteq> key} = set (entries t)" by auto
  with set1 have "set (entries ?t1) = insert ?e {x \<in> set (entries t). m_key x \<noteq> key}" by simp
  from map_of_entries_upd [OF d0 d1 this]
  show "contents ?t1 = (contents t)(key \<mapsto> v)" by (simp add: contents_def)
qed

text \<open>The last branch of \<^verbatim>\<open>insert\<close>: the iterator stands on an entry with the key.\<close>

lemma assign_entry_inv:
  assumes inv: "hash_inv hashFunc t"
    and j: "j < length (m_table t ! (hashFunc key mod m_size t))"
    and k: "m_key (m_table t ! (hashFunc key mod m_size t) ! j) = key"
  shows "hash_inv hashFunc (assign_entry t (hashFunc key mod m_size t) j \<lparr>m_key = key, m_data = v\<rparr>)"
    and "contents (assign_entry t (hashFunc key mod m_size t) j \<lparr>m_key = key, m_data = v\<rparr>) =
         (contents t)(key \<mapsto> v)"
    and "contents t key \<noteq> None"
proof -
  let ?i = "hashFunc key mod m_size t"
  let ?e = "\<lparr>m_key = key, m_data = v\<rparr>"
  let ?t1 = "assign_entry t ?i j ?e"
  let ?p = "length (concat (take ?i (m_table t))) + j"
  from inv have shape: "table_shape t" by (simp add: hash_inv_def)
  then have i: "?i < length (m_table t)" by (rule index_in_range)
  from inv have d0: "distinct (map m_key (entries t))" by (simp add: hash_inv_def)
  have p: "?p < length (entries t)" and pk: "m_key (entries t ! ?p) = key"
    using concat_nth_flat [OF i j] k by (simp_all add: entries_def)
  have e1: "entries ?t1 = (entries t)[?p := ?e]"
    using concat_update_flat [OF i j] by (simp add: entries_def assign_entry_def)
  have keys1: "map m_key (entries ?t1) = map m_key (entries t)"
    unfolding e1 by (rule entries_overwrite(1) [OF d0 p pk])
  have set1: "set (entries ?t1) = insert ?e {x \<in> set (entries t). m_key x \<noteq> key}"
    unfolding e1 by (rule entries_overwrite(2) [OF d0 p pk])
  from p have "entries t ! ?p \<in> set (entries t)" by (rule nth_mem)
  with pk have "key \<in> m_key ` set (entries t)" by force
  then show "contents t key \<noteq> None" by (simp add: contents_def map_of_entries_None)
  from keys1 d0 have d1: "distinct (map m_key (entries ?t1))" by simp
  from keys1 have len1: "length (entries ?t1) = length (entries t)"
    by (metis length_map)
  have place: "\<forall>i\<in>{0..<m_size ?t1}. \<forall>e\<in>set (m_table ?t1 ! i). hashFunc (m_key e) mod m_size ?t1 = i"
  proof (intro ballI)
    fix i e
    assume "i \<in> {0..<m_size ?t1}" and e: "e \<in> set (m_table ?t1 ! i)"
    then have i': "i < m_size ?t1" by simp
    from i' have i'': "i < m_size t" by (simp add: assign_entry_def)
    show "hashFunc (m_key e) mod m_size ?t1 = i"
    proof (cases "i = ?i")
      case True
      with e i have "e \<in> set ((m_table t ! ?i)[j := ?e])" by (simp add: assign_entry_def)
      then have "e = ?e \<or> e \<in> set (m_table t ! i)"
        using set_update_subset_insert [of "m_table t ! ?i" j ?e] True by auto
      with inv i'' True show ?thesis by (auto simp: hash_inv_def assign_entry_def)
    next
      case False
      with e have "e \<in> set (m_table t ! i)" by (simp add: assign_entry_def)
      with inv i'' show ?thesis by (simp add: hash_inv_def assign_entry_def)
    qed
  qed
  from shape have "table_shape ?t1" by (simp add: table_shape_def assign_entry_def)
  moreover from inv len1 have "m_count ?t1 = length (entries ?t1)"
    by (simp add: hash_inv_def assign_entry_def)
  ultimately show "hash_inv hashFunc ?t1" using place d1 by (simp add: hash_inv_def)
  from map_of_entries_upd [OF d0 d1 set1]
  show "contents ?t1 = (contents t)(key \<mapsto> v)" by (simp add: contents_def)
qed

text \<open>The mutation of \<^verbatim>\<open>insert\<close> under the natural equality of the keys.\<close>

lemma insert_step_inv:
  assumes inv: "hash_inv hashFunc t"
    and step: "insert_step hashFunc (=) t key v = (b, t1)"
  shows "hash_inv hashFunc t1" and "contents t1 = (contents t)(key \<mapsto> v)"
    and "b \<longleftrightarrow> contents t key = None"
    and "m_size t1 = m_size t" and "m_load_factor t1 = m_load_factor t"
proof -
  let ?i = "hashFunc key mod m_size t"
  let ?e = "\<lparr>m_key = key, m_data = v\<rparr>"
  show "m_size t1 = m_size t" and "m_load_factor t1 = m_load_factor t"
    using step by (auto simp: insert_step_def push_front_entry_def assign_entry_def split: option.splits)
  show "hash_inv hashFunc t1 "
   and "contents t1 = (contents t)(key \<mapsto> v)"
   and "b \<longleftrightarrow> contents t key = None"
  proof (atomize (full), cases "find_if (\<lambda>hashEntry. key = m_key hashEntry) (m_table t ! ?i)")
    case None
    then have absent: "key \<notin> m_key ` set (m_table t ! ?i)"
      by (auto simp: find_if_None_iff)
    from None step have "b" and t1: "t1 = push_front_entry t ?i ?e"
      by (simp_all add: insert_step_def)
    with push_front_entry_inv(1,2) [OF inv absent, of v] push_front_entry_inv(3) [OF inv absent]
    show "hash_inv hashFunc t1 \<and> contents t1 = (contents t)(key \<mapsto> v) \<and> (b \<longleftrightarrow> contents t key = None)"
      by simp
  next
    case (Some j)
    from find_if_SomeD [OF Some] have j: "j < length (m_table t ! ?i)"
      and k: "m_key (m_table t ! ?i ! j) = key" by simp_all
    from Some step have "\<not> b" and t1: "t1 = assign_entry t ?i j ?e"
      by (simp_all add: insert_step_def)
    with assign_entry_inv(1,2) [OF inv j k, of v] assign_entry_inv(3) [OF inv j k]
    show "hash_inv hashFunc t1 \<and> contents t1 = (contents t)(key \<mapsto> v) \<and> (b \<longleftrightarrow> contents t key = None)"
      by simp
  qed
qed

lemma count_is_card_dom:
  assumes "hash_inv hashFunc t"
  shows "m_count t = card (dom (contents t))"
proof -
  have "dom (contents t) = set (map m_key (entries t))"
    by (simp add: contents_def dom_map_of_conv_image_fst image_image)
  moreover from assms have "distinct (map m_key (entries t))" by (simp add: hash_inv_def)
  then have "card (set (map m_key (entries t))) = length (map m_key (entries t))"
    by (rule distinct_card)
  ultimately show ?thesis using assms by (simp add: hash_inv_def)
qed

lemma fold_put_entry_distinct:
  "distinct (map m_key es) \<Longrightarrow>
     fold put_entry es m = m ++ map_of (map (\<lambda>e. (m_key e, m_data e)) es)"
proof (induction es arbitrary: m)
  case Nil
  then show ?case by simp
next
  case (Cons e es)
  from Cons.prems have d: "distinct (map m_key es)" and nk: "m_key e \<notin> m_key ` set es" by simp_all
  let ?M = "map_of (map (\<lambda>e. (m_key e, m_data e)) es)"
  from nk have none: "?M (m_key e) = None" by (simp add: map_of_entries_None)
  have "fold put_entry (e # es) m = fold put_entry es (m(m_key e \<mapsto> m_data e))"
    by (simp add: put_entry_def)
  also have "\<dots> = m(m_key e \<mapsto> m_data e) ++ ?M" by (rule Cons.IH [OF d])
  finally have lhs: "fold put_entry (e # es) m = m(m_key e \<mapsto> m_data e) ++ ?M" .
  have mid: "m(m_key e \<mapsto> m_data e) ++ ?M = (m ++ ?M)(m_key e \<mapsto> m_data e)"
  proof (rule ext)
    fix x
    show "(m(m_key e \<mapsto> m_data e) ++ ?M) x = ((m ++ ?M)(m_key e \<mapsto> m_data e)) x"
      using none by (cases "x = m_key e") (simp_all add: map_add_def split: option.splits)
  qed
  have rhs: "m ++ map_of (map (\<lambda>e. (m_key e, m_data e)) (e # es)) = (m ++ ?M)(m_key e \<mapsto> m_data e)"
    by simp
  show ?case by (simp only: lhs mid rhs)
qed

lemma insert_each_spec:
  fixes t :: "('k, 'd) HashTbl"
  assumes ins: "\<And>(t :: ('k, 'd) HashTbl) key v b t'. hash_inv hashFunc t \<Longrightarrow>
      insert_ht n hashFunc (=) t key v = Some (b, t') \<Longrightarrow>
      hash_inv hashFunc t' \<and> contents t' = (contents t)(key \<mapsto> v) \<and>
      m_load_factor t' = m_load_factor t \<and> m_size t \<le> m_size t'"
  shows "hash_inv hashFunc t \<Longrightarrow> insert_each n hashFunc (=) t es = Some t' \<Longrightarrow>
      hash_inv hashFunc t' \<and> contents t' = fold put_entry es (contents t) \<and>
      m_load_factor t' = m_load_factor t \<and> m_size t \<le> m_size t'"
proof (induction es arbitrary: t)
  case Nil
  then show ?case by simp
next
  case (Cons e es)
  from Cons.prems(2) obtain b t1 where
    i1: "insert_ht n hashFunc (=) t (m_key e) (m_data e) = Some (b, t1)"
    and rest: "insert_each n hashFunc (=) t1 es = Some t'"
    by (auto split: option.splits)
  from ins [OF Cons.prems(1) i1] have s1: "hash_inv hashFunc t1"
    "contents t1 = (contents t)(m_key e \<mapsto> m_data e)"
    "m_load_factor t1 = m_load_factor t" "m_size t \<le> m_size t1" by simp_all
  from Cons.IH [OF s1(1) rest] s1(2,3,4) show ?case by (simp add: put_entry_def)
qed

lemma rehash_spec_step:
  fixes t :: "('k, 'd) HashTbl"
  assumes ins: "\<And>(t :: ('k, 'd) HashTbl) key v b t'. hash_inv hashFunc t \<Longrightarrow>
      insert_ht n hashFunc (=) t key v = Some (b, t') \<Longrightarrow>
      hash_inv hashFunc t' \<and> contents t' = (contents t)(key \<mapsto> v) \<and>
      m_load_factor t' = m_load_factor t \<and> m_size t \<le> m_size t'"
    and inv: "hash_inv hashFunc t"
    and reh: "rehash (Suc n) hashFunc (=) t = Some t'"
  shows "hash_inv hashFunc t' \<and> contents t' = contents t \<and>
      m_load_factor t' = m_load_factor t \<and> m_size t \<le> m_size t'"
proof -
  let ?n = "find_next_prime (2 * m_size t)"
  let ?t0 = "t\<lparr>m_size := ?n, m_table := replicate ?n [], m_count := 0\<rparr>"
  from inv have len: "length (m_table t) = m_size t" by (simp add: hash_inv_def table_shape_def)
  have "map (\<lambda>index. m_table t ! index) [0..<m_size t] = m_table t"
    using map_nth [of "m_table t"] len by simp
  with reh have loop: "insert_each n hashFunc (=) ?t0 (entries t) = Some t'"
    by (simp add: Let_def entries_def)
  have pos: "0 < ?n" by (rule find_next_prime_pos)
  from insert_each_spec [OF ins fresh_table_inv(1) [OF pos] loop]
  have r: "hash_inv hashFunc t'" "contents t' = fold put_entry (entries t) (contents ?t0)"
    "m_load_factor t' = m_load_factor t" "?n \<le> m_size t'" by simp_all
  from inv have d: "distinct (map m_key (entries t))" by (simp add: hash_inv_def)
  have "contents ?t0 = Map.empty" by (rule fresh_table_inv(2) [OF pos])
  with r(2) have "contents t' = Map.empty ++ map_of (map (\<lambda>e. (m_key e, m_data e)) (entries t))"
    by (simp only: fold_put_entry_distinct [OF d])
  then have "contents t' = contents t" by (simp add: contents_def)
  moreover have "m_size t \<le> ?n" using find_next_prime_ge [of "2 * m_size t"] by simp
  ultimately show ?thesis using r(1,3,4) by simp
qed

lemma insert_ht_spec_step:
  fixes t :: "('k, 'd) HashTbl"
  assumes reh: "\<And>(t :: ('k, 'd) HashTbl) t'. hash_inv hashFunc t \<Longrightarrow> rehash n hashFunc (=) t = Some t' \<Longrightarrow>
      hash_inv hashFunc t' \<and> contents t' = contents t \<and>
      m_load_factor t' = m_load_factor t \<and> m_size t \<le> m_size t'"
    and inv: "hash_inv hashFunc t"
    and ins: "insert_ht n hashFunc (=) t key v = Some (b, t')"
  shows "hash_inv hashFunc t' \<and> contents t' = (contents t)(key \<mapsto> v) \<and>
      (b \<longleftrightarrow> contents t key = None) \<and>
      m_load_factor t' = m_load_factor t \<and> m_size t \<le> m_size t'"
proof -
  obtain b1 t1 where step: "insert_step hashFunc (=) t key v = (b1, t1)"
    by (cases "insert_step hashFunc (=) t key v")
  note s = insert_step_inv [OF inv step]
  show ?thesis
  proof (cases "load_exceeded t1")
    case False
    with ins step have "b = b1" "t' = t1" by (simp_all add: insert_ht_step)
    with s show ?thesis by simp
  next
    case True
    with ins step have "b = b1" and r: "rehash n hashFunc (=) t1 = Some t'"
      by (auto simp: insert_ht_step)
    from reh [OF s(1) r] s \<open>b = b1\<close> show ?thesis by simp
  qed
qed

lemma insert_rehash_spec:
  "(\<forall>(t :: ('k, 'd) HashTbl) key v b t'. hash_inv hashFunc t \<longrightarrow> insert_ht n hashFunc (=) t key v = Some (b, t') \<longrightarrow>
      hash_inv hashFunc t' \<and> contents t' = (contents t)(key \<mapsto> v) \<and>
      (b \<longleftrightarrow> contents t key = None) \<and>
      m_load_factor t' = m_load_factor t \<and> m_size t \<le> m_size t') \<and>
   (\<forall>(t :: ('k, 'd) HashTbl) t'. hash_inv hashFunc t \<longrightarrow> rehash n hashFunc (=) t = Some t' \<longrightarrow>
      hash_inv hashFunc t' \<and> contents t' = contents t \<and>
      m_load_factor t' = m_load_factor t \<and> m_size t \<le> m_size t')"
proof (induction n)
  case 0
  have r0: "\<And>(t :: ('k, 'd) HashTbl) t'. hash_inv hashFunc t \<Longrightarrow> rehash 0 hashFunc (=) t = Some t' \<Longrightarrow>
      hash_inv hashFunc t' \<and> contents t' = contents t \<and>
      m_load_factor t' = m_load_factor t \<and> m_size t \<le> m_size t'" by simp
  show ?case
  proof (rule conjI)
    show "\<forall>(t :: ('k, 'd) HashTbl) key v b t'. hash_inv hashFunc t \<longrightarrow>
      insert_ht 0 hashFunc (=) t key v = Some (b, t') \<longrightarrow>
      hash_inv hashFunc t' \<and> contents t' = (contents t)(key \<mapsto> v) \<and>
      (b \<longleftrightarrow> contents t key = None) \<and>
      m_load_factor t' = m_load_factor t \<and> m_size t \<le> m_size t'"
      using insert_ht_spec_step [OF r0] by blast
    show "\<forall>(t :: ('k, 'd) HashTbl) t'. hash_inv hashFunc t \<longrightarrow>
      rehash 0 hashFunc (=) t = Some t' \<longrightarrow>
      hash_inv hashFunc t' \<and> contents t' = contents t \<and>
      m_load_factor t' = m_load_factor t \<and> m_size t \<le> m_size t'" by simp
  qed
next
  case (Suc n)
  then have ins: "\<And>(t :: ('k, 'd) HashTbl) key v b t'. hash_inv hashFunc t \<Longrightarrow>
      insert_ht n hashFunc (=) t key v = Some (b, t') \<Longrightarrow>
      hash_inv hashFunc t' \<and> contents t' = (contents t)(key \<mapsto> v) \<and>
      m_load_factor t' = m_load_factor t \<and> m_size t \<le> m_size t'" by blast
  have reh: "\<And>(t :: ('k, 'd) HashTbl) t'. hash_inv hashFunc t \<Longrightarrow>
      rehash (Suc n) hashFunc (=) t = Some t' \<Longrightarrow>
      hash_inv hashFunc t' \<and> contents t' = contents t \<and>
      m_load_factor t' = m_load_factor t \<and> m_size t \<le> m_size t'"
    by (rule rehash_spec_step [OF ins])
  show ?case
  proof (rule conjI)
    show "\<forall>(t :: ('k, 'd) HashTbl) key v b t'. hash_inv hashFunc t \<longrightarrow>
      insert_ht (Suc n) hashFunc (=) t key v = Some (b, t') \<longrightarrow>
      hash_inv hashFunc t' \<and> contents t' = (contents t)(key \<mapsto> v) \<and>
      (b \<longleftrightarrow> contents t key = None) \<and>
      m_load_factor t' = m_load_factor t \<and> m_size t \<le> m_size t'"
      using insert_ht_spec_step [OF reh] by blast
    show "\<forall>(t :: ('k, 'd) HashTbl) t'. hash_inv hashFunc t \<longrightarrow>
      rehash (Suc n) hashFunc (=) t = Some t' \<longrightarrow>
      hash_inv hashFunc t' \<and> contents t' = contents t \<and>
      m_load_factor t' = m_load_factor t \<and> m_size t \<le> m_size t'"
      using reh by blast
  qed
qed

lemma insert_ht_spec:
  fixes t :: "('k, 'd) HashTbl"
  assumes "hash_inv hashFunc t" and "insert_ht n hashFunc (=) t key v = Some (b, t')"
  shows "hash_inv hashFunc t'" and "contents t' = (contents t)(key \<mapsto> v)"
    and "b \<longleftrightarrow> contents t key = None"
    and "m_load_factor t' = m_load_factor t" and "m_size t \<le> m_size t'"
proof -
  from insert_rehash_spec [of hashFunc n]
  have "\<forall>(t :: ('k, 'd) HashTbl) key v b t'. hash_inv hashFunc t \<longrightarrow>
      insert_ht n hashFunc (=) t key v = Some (b, t') \<longrightarrow>
      hash_inv hashFunc t' \<and> contents t' = (contents t)(key \<mapsto> v) \<and>
      (b \<longleftrightarrow> contents t key = None) \<and>
      m_load_factor t' = m_load_factor t \<and> m_size t \<le> m_size t'" by (rule conjunct1)
  from this [rule_format, OF assms]
  show "hash_inv hashFunc t'" and "contents t' = (contents t)(key \<mapsto> v)"
    and "b \<longleftrightarrow> contents t key = None"
    and "m_load_factor t' = m_load_factor t" and "m_size t \<le> m_size t'" by simp_all
qed


lemma insert_each_contents:
  fixes t :: "('k, 'd) HashTbl"
  assumes "hash_inv hashFunc t" and "insert_each n hashFunc (=) t es = Some t'"
  shows "hash_inv hashFunc t'" and "contents t' = fold put_entry es (contents t)"
    and "m_load_factor t' = m_load_factor t" and "m_size t \<le> m_size t'"
proof -
  have ins: "\<And>(t :: ('k, 'd) HashTbl) key v b t'. hash_inv hashFunc t \<Longrightarrow>
      insert_ht n hashFunc (=) t key v = Some (b, t') \<Longrightarrow>
      hash_inv hashFunc t' \<and> contents t' = (contents t)(key \<mapsto> v) \<and>
      m_load_factor t' = m_load_factor t \<and> m_size t \<le> m_size t'"
  proof -
    fix t :: "('k, 'd) HashTbl" and key v b t'
    assume a: "hash_inv hashFunc t" "insert_ht n hashFunc (=) t key v = Some (b, t')"
    from insert_ht_spec(1,2,4,5) [OF a]
    show "hash_inv hashFunc t' \<and> contents t' = (contents t)(key \<mapsto> v) \<and>
      m_load_factor t' = m_load_factor t \<and> m_size t \<le> m_size t'" by simp
  qed
  from insert_each_spec [OF ins assms]
  show "hash_inv hashFunc t'" and "contents t' = fold put_entry es (contents t)"
    and "m_load_factor t' = m_load_factor t" and "m_size t \<le> m_size t'" by simp_all
qed

section \<open>The claims about the lookups\<close>

text \<open>
  C9. \<^verbatim>\<open>count(key)\<close> is zero when no entry of the chain selected by the hash of the key
  has the key (under \<^verbatim>\<open>KeyEqual\<close>), and otherwise the length of that whole chain, the
  entries with other keys included. In a table of capacity 11 filled with the keys 1,
  12 and 23 under the identity hash, all three in chain 1, \<^verbatim>\<open>count(12)\<close> is 3.
\<close>

theorem count_ht_chain_length:
  "count_ht hashFunc keyEqual t key =
     (if \<exists>e\<in>set (m_table t ! (hashFunc key mod m_size t)). keyEqual key (m_key e)
      then length (m_table t ! (hashFunc key mod m_size t)) else 0) \<and>
   map_option (\<lambda>t. (m_table t ! 1, count_ht (\<lambda>k. k) (=) t 12))
     (insert_each 0 (\<lambda>k. k) (=) (HashTbl_ctor 10)
        [\<lparr>m_key = 1::nat, m_data = ''a''\<rparr>, \<lparr>m_key = 12, m_data = ''k''\<rparr>,
         \<lparr>m_key = 23, m_data = ''c''\<rparr>]) =
   Some ([\<lparr>m_key = 23, m_data = ''c''\<rparr>, \<lparr>m_key = 12, m_data = ''k''\<rparr>,
          \<lparr>m_key = 1, m_data = ''a''\<rparr>], 3)"
proof (rule conjI)
  let ?c = "m_table t ! (hashFunc key mod m_size t)"
  show "count_ht hashFunc keyEqual t key =
     (if \<exists>e\<in>set ?c. keyEqual key (m_key e) then length ?c else 0)"
  proof (cases "find_if (\<lambda>hashEntry. keyEqual key (m_key hashEntry)) ?c")
    case None
    then have "\<not> (\<exists>e\<in>set ?c. keyEqual key (m_key e))" by (simp add: find_if_None_iff)
    with None show ?thesis by (simp add: count_ht_def Let_def)
  next
    case (Some j)
    then have "\<exists>e\<in>set ?c. keyEqual key (m_key e)"
      using find_if_Some_ex [of "\<lambda>hashEntry. keyEqual key (m_key hashEntry)" ?c] by blast
    with Some show ?thesis by (simp add: count_ht_def Let_def)
  qed
  show "map_option (\<lambda>t. (m_table t ! 1, count_ht (\<lambda>k. k) (=) t 12))
     (insert_each 0 (\<lambda>k. k) (=) (HashTbl_ctor 10)
        [\<lparr>m_key = 1::nat, m_data = ''a''\<rparr>, \<lparr>m_key = 12, m_data = ''k''\<rparr>,
         \<lparr>m_key = 23, m_data = ''c''\<rparr>]) =
   Some ([\<lparr>m_key = 23, m_data = ''c''\<rparr>, \<lparr>m_key = 12, m_data = ''k''\<rparr>,
          \<lparr>m_key = 1, m_data = ''a''\<rparr>], 3)"
    by code_simp
qed

lemma contents_Some_iff:
  assumes "hash_inv hashFunc t"
  shows "contents t key = Some v \<longleftrightarrow> \<lparr>m_key = key, m_data = v\<rparr> \<in> set (entries t)"
proof -
  from assms have "distinct (map m_key (entries t))" by (simp add: hash_inv_def)
  then show ?thesis unfolding contents_def by (rule map_of_entries_Some)
qed

lemma contents_None_iff: "contents t key = None \<longleftrightarrow> key \<notin> m_key ` set (entries t)"
  by (simp add: contents_def map_of_entries_None)

text \<open>
  Under the invariant the scan of the chain with the natural equality finds exactly the
  entry that holds the content of the key.
\<close>

lemma find_if_contents:
  fixes t :: "('k, 'd) HashTbl"
  assumes inv: "hash_inv hashFunc t"
  shows "case find_if (\<lambda>hashEntry. key = m_key hashEntry) (m_table t ! (hashFunc key mod m_size t)) of
           None \<Rightarrow> contents t key = None
         | Some j \<Rightarrow> j < length (m_table t ! (hashFunc key mod m_size t)) \<and>
             m_key (m_table t ! (hashFunc key mod m_size t) ! j) = key \<and>
             contents t key = Some (m_data (m_table t ! (hashFunc key mod m_size t) ! j))"
proof (cases "find_if (\<lambda>hashEntry. key = m_key hashEntry) (m_table t ! (hashFunc key mod m_size t))")
  case None
  then have absent: "key \<notin> m_key ` set (m_table t ! (hashFunc key mod m_size t))"
    by (auto simp: find_if_None_iff)
  have "key \<notin> m_key ` set (entries t)"
  proof
    assume "key \<in> m_key ` set (entries t)"
    then obtain x where x: "x \<in> set (entries t)" "m_key x = key" by auto
    from entry_in_its_chain [OF inv x(1)] x(2) absent show False by auto
  qed
  with None show ?thesis by (simp add: contents_None_iff)
next
  case (Some j)
  let ?c = "m_table t ! (hashFunc key mod m_size t)"
  from find_if_SomeD [OF Some] have j: "j < length ?c" and k: "m_key (?c ! j) = key" by simp_all
  from inv have "table_shape t" by (simp add: hash_inv_def)
  then have "hashFunc key mod m_size t < length (m_table t)" by (rule index_in_range)
  from chain_subset_entries [OF this] j have "?c ! j \<in> set (entries t)" by auto
  moreover from k have "?c ! j = \<lparr>m_key = key, m_data = m_data (?c ! j)\<rparr>" by simp
  ultimately have "\<lparr>m_key = key, m_data = m_data (?c ! j)\<rparr> \<in> set (entries t)" by simp
  then have "contents t key = Some (m_data (?c ! j))" by (simp add: contents_Some_iff [OF inv])
  with Some j k show ?thesis by simp
qed

lemma retrieve_contents:
  fixes t :: "('k, 'd) HashTbl"
  assumes "hash_inv hashFunc t"
  shows "retrieve hashFunc (=) t key data_item =
     (case contents t key of Some v \<Rightarrow> (True, v) | None \<Rightarrow> (False, data_item))"
  using find_if_contents [OF assms, of key]
  by (simp add: retrieve_def Let_def split: option.splits)

text \<open>
  C8. In a table that satisfies the invariant, with the natural equality of the keys:
  when the key has an entry, \<^verbatim>\<open>at\<close> returns a reference whose target is the stored value,
  and a write through the reference changes the value stored for the key; when the key
  has no entry, \<^verbatim>\<open>at\<close> throws \<^verbatim>\<open>std::out_of_range\<close>. On a table fresh from the
  constructor \<^verbatim>\<open>at\<close> throws for every key, whatever the hash and the equality are, and
  in every case the table after \<^verbatim>\<open>at\<close> is the table before.
\<close>

theorem at_ht_reference_or_out_of_range:
  fixes t :: "('k, 'd) HashTbl"
  assumes inv: "hash_inv hashFunc t"
  shows "(case contents t key of
            Some v \<Rightarrow>
              (\<exists>r. at_ht hashFunc (=) t key = (Inr r, t) \<and> deref t r = v \<and>
                   (\<forall>w. contents (assign_ref t r w) = (contents t)(key \<mapsto> w)))
          | None \<Rightarrow> at_ht hashFunc (=) t key = (Inl out_of_range, t)) \<and>
         at_ht hashFunc keyEqual (HashTbl_ctor sz) key = (Inl out_of_range, HashTbl_ctor sz) \<and>
         snd (at_ht hashFunc keyEqual t key) = t"
proof (intro conjI)
  let ?i = "hashFunc key mod m_size t"
  let ?c = "m_table t ! ?i"
  show "snd (at_ht hashFunc keyEqual t key) = t"
    by (simp add: at_ht_def Let_def split: option.splits)
  have "hashFunc key mod find_next_prime sz < find_next_prime sz"
    using find_next_prime_pos [of sz] by simp
  then show "at_ht hashFunc keyEqual (HashTbl_ctor sz) key = (Inl out_of_range, HashTbl_ctor sz)"
    by (simp add: at_ht_def Let_def HashTbl_ctor_def)
  show "case contents t key of
            Some v \<Rightarrow>
              (\<exists>r. at_ht hashFunc (=) t key = (Inr r, t) \<and> deref t r = v \<and>
                   (\<forall>w. contents (assign_ref t r w) = (contents t)(key \<mapsto> w)))
          | None \<Rightarrow> at_ht hashFunc (=) t key = (Inl out_of_range, t)"
  proof (cases "find_if (\<lambda>hashEntry. key = m_key hashEntry) ?c")
    case None
    with find_if_contents [OF inv, of key] have "contents t key = None" by simp
    with None show ?thesis by (simp add: at_ht_def Let_def)
  next
    case (Some j)
    with find_if_contents [OF inv, of key] have j: "j < length ?c" and k: "m_key (?c ! j) = key"
      and c: "contents t key = Some (m_data (?c ! j))" by simp_all
    have at: "at_ht hashFunc (=) t key = (Inr (?i, j), t)"
      using Some by (simp add: at_ht_def Let_def)
    have rd: "deref t (?i, j) = m_data (?c ! j)" by (simp add: deref_def)
    have wr: "contents (assign_ref t (?i, j) w) = (contents t)(key \<mapsto> w)" for w
    proof -
      from k have "(?c ! j)\<lparr>m_data := w\<rparr> = \<lparr>m_key = key, m_data = w\<rparr>" by simp
      then have "assign_ref t (?i, j) w = assign_entry t ?i j \<lparr>m_key = key, m_data = w\<rparr>"
        by (simp add: assign_ref_def assign_entry_def)
      with assign_entry_inv(2) [OF inv j k, of w] show ?thesis by simp
    qed
    from at rd wr c show ?thesis by auto
  qed
qed

theorem at_ht_reference_or_out_of_range_witness:
  "hash_inv length
     \<lparr>m_size = 3, m_count = 1, m_load_factor = 1,
      m_table = [[], [\<lparr>m_key = ''k'', m_data = 5::nat\<rparr>], []]\<rparr> \<and>
   (\<exists>r. at_ht length (=)
     \<lparr>m_size = 3, m_count = 1, m_load_factor = 1,
      m_table = [[], [\<lparr>m_key = ''k'', m_data = 5::nat\<rparr>], []]\<rparr> ''k'' =
     (Inr r,
      \<lparr>m_size = 3, m_count = 1, m_load_factor = 1,
       m_table = [[], [\<lparr>m_key = ''k'', m_data = 5::nat\<rparr>], []]\<rparr>) \<and>
     deref \<lparr>m_size = 3, m_count = 1, m_load_factor = 1,
       m_table = [[], [\<lparr>m_key = ''k'', m_data = 5::nat\<rparr>], []]\<rparr> r = 5) \<and>
   at_ht length (=) (HashTbl_ctor 10 :: (string, nat) HashTbl) ''k'' =
     (Inl out_of_range, HashTbl_ctor 10)"
proof -
  let ?t = "\<lparr>m_size = 3, m_count = 1, m_load_factor = 1,
      m_table = [[], [\<lparr>m_key = ''k'', m_data = 5::nat\<rparr>], []]\<rparr>"
  have h: "hash_inv length ?t" by code_simp
  have c: "contents ?t ''k'' = Some 5" by code_simp
  note at_ht_reference_or_out_of_range [OF h, of "''k''" "(=)" 10]
  then have "\<exists>r. at_ht length (=) ?t ''k'' = (Inr r, ?t) \<and> deref ?t r = 5"
    and "at_ht length (=) (HashTbl_ctor 10 :: (string, nat) HashTbl) ''k'' =
     (Inl out_of_range, HashTbl_ctor 10)"
    unfolding c by auto
  with h show ?thesis by (auto simp: deref_def)
qed

section \<open>The claim about the branches of insert\<close>



section \<open>When insert returns\<close>

lemma length_concat_update_cons:
  "length (concat (xss[i := e # xss ! i])) \<le> length (concat xss) + 1"
proof (cases "i < length xss")
  case True
  have "length (concat (xss[i := e # xss ! i])) =
      length (concat (take i xss) @ (e # xss ! i) @ concat (drop (Suc i) xss))"
    by (simp only: concat_list_update [OF True])
  also have "\<dots> = length (concat (take i xss) @ xss ! i @ concat (drop (Suc i) xss)) + 1" by simp
  also have "\<dots> = length (concat xss) + 1" by (simp only: concat_split_nth [OF True, symmetric])
  finally show ?thesis by simp
next
  case False
  then have "xss[i := e # xss ! i] = xss" by (intro list_update_beyond) simp
  then show ?thesis by simp
qed

lemma length_concat_update_assign:
  "length (concat (xss[i := (xss ! i)[j := e]])) = length (concat xss)"
proof (cases "i < length xss")
  case True
  have "length (concat (xss[i := (xss ! i)[j := e]])) =
      length (concat (take i xss) @ (xss ! i)[j := e] @ concat (drop (Suc i) xss))"
    by (simp only: concat_list_update [OF True])
  also have "\<dots> = length (concat (take i xss) @ xss ! i @ concat (drop (Suc i) xss))" by simp
  also have "\<dots> = length (concat xss)" by (simp only: concat_split_nth [OF True, symmetric])
  finally show ?thesis .
next
  case False
  then have "xss[i := (xss ! i)[j := e]] = xss" by (intro list_update_beyond) simp
  then show ?thesis by simp
qed

lemma insert_step_potential:
  assumes "insert_step hashFunc keyEqual t key v = (b, t1)"
  shows "potential t1 \<le> potential t + 1" and "m_size t1 = m_size t"
    and "m_load_factor t1 = m_load_factor t" and "table_shape t \<Longrightarrow> table_shape t1"
proof -
  let ?i = "hashFunc key mod m_size t"
  let ?e = "\<lparr>m_key = key, m_data = v\<rparr>"
  show "table_shape t \<Longrightarrow> table_shape t1" and "m_size t1 = m_size t"
    and "m_load_factor t1 = m_load_factor t"
    using assms
    by (auto simp: insert_step_def push_front_entry_def assign_entry_def table_shape_def
        split: option.splits)
  show "potential t1 \<le> potential t + 1"
  proof (cases "find_if (\<lambda>hashEntry. keyEqual key (m_key hashEntry)) (m_table t ! ?i)")
    case None
    with assms have t1: "t1 = push_front_entry t ?i ?e" by (simp add: insert_step_def)
    have "length (entries t1) \<le> length (entries t) + 1"
      unfolding t1 entries_def push_front_entry_def
      using length_concat_update_cons [of "m_table t" ?i ?e] by simp
    moreover have "m_count t1 = m_count t + 1" by (simp add: t1 push_front_entry_def)
    ultimately show ?thesis unfolding potential_def by linarith
  next
    case (Some j)
    with assms have t1: "t1 = assign_entry t ?i j ?e" by (simp add: insert_step_def)
    have "length (entries t1) = length (entries t)"
      unfolding t1 entries_def assign_entry_def
      using length_concat_update_assign [of "m_table t" ?i j ?e] by simp
    moreover have "m_count t1 = m_count t" by (simp add: t1 assign_entry_def)
    ultimately show ?thesis unfolding potential_def by linarith
  qed
qed

lemma room_mono_size:
  assumes "room C t n" and "0 < m_load_factor t" and "m_size t \<le> m_size t'"
    and "m_load_factor t' = m_load_factor t"
  shows "room C t' n"
proof -
  from assms(3) have "m_size t * 2 ^ n \<le> m_size t' * 2 ^ n" by (rule mult_le_mono1)
  then have "real (m_size t * 2 ^ n) \<le> real (m_size t' * 2 ^ n)" by (simp only: of_nat_le_iff)
  with assms(2) have "m_load_factor t * real (m_size t * 2 ^ n) \<le> m_load_factor t * real (m_size t' * 2 ^ n)"
    by (intro mult_left_mono) simp_all
  with assms(1,4) show ?thesis by (simp add: room_def)
qed

lemma room_double:
  assumes "room C t (Suc n)" and "0 < m_load_factor t" and "2 * m_size t \<le> m_size t'"
    and "m_load_factor t' = m_load_factor t"
  shows "room C t' n"
proof -
  from assms(3) have "(2 * m_size t) * 2 ^ n \<le> m_size t' * 2 ^ n" by (rule mult_le_mono1)
  then have "m_size t * 2 ^ Suc n \<le> m_size t' * 2 ^ n" by (simp add: mult.assoc mult.left_commute)
  then have "real (m_size t * 2 ^ Suc n) \<le> real (m_size t' * 2 ^ n)" by (simp only: of_nat_le_iff)
  with assms(2) have "m_load_factor t * real (m_size t * 2 ^ Suc n) \<le> m_load_factor t * real (m_size t' * 2 ^ n)"
    by (intro mult_left_mono) simp_all
  with assms(1,4) show ?thesis by (simp add: room_def)
qed

lemma room_not_exceeded:
  assumes "room C t 0" and "m_count t \<le> C" and "0 < C"
  shows "\<not> load_exceeded t"
proof -
  from assms have le: "real (m_count t) \<le> m_load_factor t * real (m_size t)"
    by (simp add: room_def)
  have "0 < m_size t"
  proof (rule ccontr)
    assume "\<not> 0 < m_size t"
    with assms(1) have "real C \<le> 0" by (simp add: room_def)
    with assms(3) show False by simp
  qed
  then have "0 < real (m_size t)" by simp
  with le have "real (m_count t) / real (m_size t) \<le> m_load_factor t"
    by (simp add: pos_divide_le_eq)
  then show ?thesis by (simp add: load_exceeded_def)
qed

lemma room_exists:
  assumes "0 < m_load_factor t" and "0 < m_size t"
  shows "\<exists>n. room C t n"
proof -
  let ?a = "m_load_factor t * real (m_size t)"
  from assms have a: "0 < ?a" by simp
  obtain n where n: "real C / ?a < 2 ^ n" using real_arch_pow [of 2 "real C / ?a"] by auto
  with a have "real C < 2 ^ n * ?a" by (simp add: pos_divide_less_eq)
  then have "real C \<le> m_load_factor t * real (m_size t * 2 ^ n)" by (simp add: mult.commute mult.left_commute)
  then show ?thesis unfolding room_def by blast
qed

lemma rehash_unfold:
  assumes "table_shape t"
  shows "rehash (Suc n) hashFunc keyEqual t =
     insert_each n hashFunc keyEqual
       (t\<lparr>m_size := find_next_prime (2 * m_size t),
          m_table := replicate (find_next_prime (2 * m_size t)) [], m_count := 0\<rparr>)
       (entries t)"
proof -
  from assms have "length (m_table t) = m_size t" by (simp add: table_shape_def)
  then have "map (\<lambda>index. m_table t ! index) [0..<m_size t] = m_table t"
    using map_nth [of "m_table t"] by simp
  then show ?thesis by (simp add: Let_def entries_def)
qed

lemma fresh_table_potential:
  assumes "0 < n"
  shows "potential (t\<lparr>m_size := n, m_table := replicate n [], m_count := 0\<rparr>) = 0"
    and "table_shape (t\<lparr>m_size := n, m_table := replicate n [], m_count := 0\<rparr>)"
  using assms by (simp_all add: potential_def entries_def table_shape_def)

lemma insert_each_returns_step:
  fixes t :: "('k, 'd) HashTbl"
  assumes ins: "\<And>(t :: ('k, 'd) HashTbl) key v. table_shape t \<Longrightarrow> 0 < m_load_factor t \<Longrightarrow>
      potential t + 1 \<le> C \<Longrightarrow> room C t n \<Longrightarrow>
      \<exists>b t'. insert_ht n hashFunc keyEqual t key v = Some (b, t') \<and> table_shape t' \<and>
        potential t' \<le> potential t + 1 \<and> m_size t \<le> m_size t' \<and>
        m_load_factor t' = m_load_factor t"
  shows "table_shape t \<Longrightarrow> 0 < m_load_factor t \<Longrightarrow> potential t + length es \<le> C \<Longrightarrow>
      room C t n \<Longrightarrow>
      \<exists>t'. insert_each n hashFunc keyEqual t es = Some t' \<and> table_shape t' \<and>
        potential t' \<le> potential t + length es \<and> m_size t \<le> m_size t' \<and>
        m_load_factor t' = m_load_factor t"
proof (induction es arbitrary: t)
  case Nil
  then show ?case by simp
next
  case (Cons e es)
  from Cons.prems(3) have "potential t + 1 \<le> C" by simp
  from ins [OF Cons.prems(1,2) this Cons.prems(4), of "m_key e" "m_data e"]
  obtain b t1 where t1: "insert_ht n hashFunc keyEqual t (m_key e) (m_data e) = Some (b, t1)"
    "table_shape t1" "potential t1 \<le> potential t + 1" "m_size t \<le> m_size t1"
    "m_load_factor t1 = m_load_factor t" by blast
  from t1(5) Cons.prems(2) have lf1: "0 < m_load_factor t1" by simp
  from t1(3) Cons.prems(3) have pot1: "potential t1 + length es \<le> C" by simp
  from room_mono_size [OF Cons.prems(4) Cons.prems(2) t1(4) t1(5)] have room1: "room C t1 n" .
  from Cons.IH [OF t1(2) lf1 pot1 room1]
  obtain t' where t': "insert_each n hashFunc keyEqual t1 es = Some t'" "table_shape t'"
    "potential t' \<le> potential t1 + length es" "m_size t1 \<le> m_size t'"
    "m_load_factor t' = m_load_factor t1" by blast
  from t1(1) t'(1) have "insert_each n hashFunc keyEqual t (e # es) = Some t'" by simp
  moreover from t'(3) t1(3) have "potential t' \<le> potential t + length (e # es)" by simp
  moreover from t'(4) t1(4) have "m_size t \<le> m_size t'" by simp
  ultimately show ?case using t'(2,5) t1(5) by simp
qed

lemma insert_ht_returns_step:
  fixes t :: "('k, 'd) HashTbl"
  assumes reh: "\<And>(t1 :: ('k, 'd) HashTbl). table_shape t1 \<Longrightarrow> 0 < m_load_factor t1 \<Longrightarrow>
      potential t1 \<le> C \<Longrightarrow> room C t1 n \<Longrightarrow> load_exceeded t1 \<Longrightarrow>
      \<exists>t'. rehash n hashFunc keyEqual t1 = Some t' \<and> table_shape t' \<and>
        potential t' \<le> potential t1 \<and> m_size t1 \<le> m_size t' \<and>
        m_load_factor t' = m_load_factor t1"
    and shape: "table_shape t" and lf: "0 < m_load_factor t"
    and pot: "potential t + 1 \<le> C" and room: "room C t n"
  shows "\<exists>b t'. insert_ht n hashFunc keyEqual t key v = Some (b, t') \<and> table_shape t' \<and>
        potential t' \<le> potential t + 1 \<and> m_size t \<le> m_size t' \<and>
        m_load_factor t' = m_load_factor t"
proof -
  obtain b t1 where step: "insert_step hashFunc keyEqual t key v = (b, t1)"
    by (cases "insert_step hashFunc keyEqual t key v")
  note s = insert_step_potential [OF step]
  show ?thesis
  proof (cases "load_exceeded t1")
    case False
    with step have "insert_ht n hashFunc keyEqual t key v = Some (b, t1)"
      by (simp add: insert_ht_step)
    with s shape show ?thesis by simp
  next
    case True
    from s(1) pot have p1: "potential t1 \<le> C" by simp
    from room s(2,3) have r1: "room C t1 n" by (simp add: room_def)
    from lf s(3) have lf1: "0 < m_load_factor t1" by simp
    from reh [OF s(4) [OF shape] lf1 p1 r1 True]
    obtain t' where t': "rehash n hashFunc keyEqual t1 = Some t'" "table_shape t'"
      "potential t' \<le> potential t1" "m_size t1 \<le> m_size t'"
      "m_load_factor t' = m_load_factor t1" by blast
    from step True t'(1) have "insert_ht n hashFunc keyEqual t key v = Some (b, t')"
      by (simp add: insert_ht_step)
    moreover from t'(3) s(1) have "potential t' \<le> potential t + 1" by simp
    ultimately show ?thesis using t'(2,4,5) s(2,3) by simp
  qed
qed

lemma rehash_returns_0:
  fixes t1 :: "('k, 'd) HashTbl"
  assumes "0 < m_load_factor t1" and "potential t1 \<le> C" and "room C t1 0" and "load_exceeded t1"
  shows "\<exists>t'. rehash 0 hashFunc keyEqual t1 = Some t' \<and> table_shape t' \<and>
        potential t' \<le> potential t1 \<and> m_size t1 \<le> m_size t' \<and>
        m_load_factor t' = m_load_factor t1"
proof -
  from assms(2) have c: "m_count t1 \<le> C" by (simp add: potential_def)
  have "0 < C"
  proof (rule ccontr)
    assume "\<not> 0 < C"
    with c have "m_count t1 = 0" by simp
    with assms(1) have "\<not> load_exceeded t1" by (simp add: load_exceeded_def)
    with assms(4) show False by simp
  qed
  from room_not_exceeded [OF assms(3) c this] assms(4) show ?thesis by simp
qed

lemma rehash_returns_Suc:
  fixes t1 :: "('k, 'd) HashTbl"
  assumes ins: "\<And>(t :: ('k, 'd) HashTbl) key v. table_shape t \<Longrightarrow> 0 < m_load_factor t \<Longrightarrow>
      potential t + 1 \<le> C \<Longrightarrow> room C t n \<Longrightarrow>
      \<exists>b t'. insert_ht n hashFunc keyEqual t key v = Some (b, t') \<and> table_shape t' \<and>
        potential t' \<le> potential t + 1 \<and> m_size t \<le> m_size t' \<and>
        m_load_factor t' = m_load_factor t"
    and shape: "table_shape t1" and lf: "0 < m_load_factor t1"
    and pot: "potential t1 \<le> C" and room: "room C t1 (Suc n)"
  shows "\<exists>t'. rehash (Suc n) hashFunc keyEqual t1 = Some t' \<and> table_shape t' \<and>
        potential t' \<le> potential t1 \<and> m_size t1 \<le> m_size t' \<and>
        m_load_factor t' = m_load_factor t1"
proof -
  let ?N = "find_next_prime (2 * m_size t1)"
  let ?t0 = "t1\<lparr>m_size := ?N, m_table := replicate ?N [], m_count := 0\<rparr>"
  have pos: "0 < ?N" by (rule find_next_prime_pos)
  have ge: "2 * m_size t1 \<le> m_size ?t0" using find_next_prime_ge [of "2 * m_size t1"] by simp
  have lf0: "m_load_factor ?t0 = m_load_factor t1" by simp
  from room_double [OF room lf ge lf0] have room0: "room C ?t0 n" .
  have len: "length (entries t1) \<le> potential t1" by (simp add: potential_def)
  with pot fresh_table_potential(1) [OF pos, of t1]
  have pot0: "potential ?t0 + length (entries t1) \<le> C" by simp
  from lf have lf0': "0 < m_load_factor ?t0" by simp
  from insert_each_returns_step [OF ins fresh_table_potential(2) [OF pos] lf0' pot0 room0]
  obtain t' where t': "insert_each n hashFunc keyEqual ?t0 (entries t1) = Some t'"
    "table_shape t'" "potential t' \<le> potential ?t0 + length (entries t1)"
    "m_size ?t0 \<le> m_size t'" "m_load_factor t' = m_load_factor ?t0" by blast
  from t'(1) have "rehash (Suc n) hashFunc keyEqual t1 = Some t'"
    by (simp only: rehash_unfold [OF shape])
  moreover from t'(3) len fresh_table_potential(1) [OF pos, of t1]
  have "potential t' \<le> potential t1" by simp
  moreover from t'(4) ge have "m_size t1 \<le> m_size t'" by simp
  ultimately show ?thesis using t'(2,5) by simp
qed

lemma insert_ht_returns_aux:
  "\<forall>(t :: ('k, 'd) HashTbl) key v. table_shape t \<longrightarrow> 0 < m_load_factor t \<longrightarrow>
      potential t + 1 \<le> C \<longrightarrow> room C t n \<longrightarrow>
      (\<exists>b t'. insert_ht n hashFunc keyEqual t key v = Some (b, t') \<and> table_shape t' \<and>
        potential t' \<le> potential t + 1 \<and> m_size t \<le> m_size t' \<and>
        m_load_factor t' = m_load_factor t)"
proof (induction n)
  case 0
  show ?case
  proof (intro allI impI)
    fix t :: "('k, 'd) HashTbl" and key v
    assume a: "table_shape t" "0 < m_load_factor t" "potential t + 1 \<le> C" "room C t 0"
    have reh: "\<And>(t1 :: ('k, 'd) HashTbl). table_shape t1 \<Longrightarrow> 0 < m_load_factor t1 \<Longrightarrow>
      potential t1 \<le> C \<Longrightarrow> room C t1 0 \<Longrightarrow> load_exceeded t1 \<Longrightarrow>
      \<exists>t'. rehash 0 hashFunc keyEqual t1 = Some t' \<and> table_shape t' \<and>
        potential t' \<le> potential t1 \<and> m_size t1 \<le> m_size t' \<and>
        m_load_factor t' = m_load_factor t1"
      by (rule rehash_returns_0)
    show "\<exists>b t'. insert_ht 0 hashFunc keyEqual t key v = Some (b, t') \<and> table_shape t' \<and>
        potential t' \<le> potential t + 1 \<and> m_size t \<le> m_size t' \<and>
        m_load_factor t' = m_load_factor t"
      by (rule insert_ht_returns_step [OF reh a])
  qed
next
  case (Suc n)
  have ins: "\<And>(t :: ('k, 'd) HashTbl) key v. table_shape t \<Longrightarrow> 0 < m_load_factor t \<Longrightarrow>
      potential t + 1 \<le> C \<Longrightarrow> room C t n \<Longrightarrow>
      \<exists>b t'. insert_ht n hashFunc keyEqual t key v = Some (b, t') \<and> table_shape t' \<and>
        potential t' \<le> potential t + 1 \<and> m_size t \<le> m_size t' \<and>
        m_load_factor t' = m_load_factor t" by (rule Suc.IH [rule_format])
  show ?case
  proof (intro allI impI)
    fix t :: "('k, 'd) HashTbl" and key v
    assume a: "table_shape t" "0 < m_load_factor t" "potential t + 1 \<le> C" "room C t (Suc n)"
    have reh: "\<And>(t1 :: ('k, 'd) HashTbl). table_shape t1 \<Longrightarrow> 0 < m_load_factor t1 \<Longrightarrow>
      potential t1 \<le> C \<Longrightarrow> room C t1 (Suc n) \<Longrightarrow> load_exceeded t1 \<Longrightarrow>
      \<exists>t'. rehash (Suc n) hashFunc keyEqual t1 = Some t' \<and> table_shape t' \<and>
        potential t' \<le> potential t1 \<and> m_size t1 \<le> m_size t' \<and>
        m_load_factor t' = m_load_factor t1"
      by (rule rehash_returns_Suc [OF ins])
    show "\<exists>b t'. insert_ht (Suc n) hashFunc keyEqual t key v = Some (b, t') \<and> table_shape t' \<and>
        potential t' \<le> potential t + 1 \<and> m_size t \<le> m_size t' \<and>
        m_load_factor t' = m_load_factor t"
      by (rule insert_ht_returns_step [OF reh a])
  qed
qed

lemma insert_ht_returns:
  fixes t :: "('k, 'd) HashTbl"
  assumes "table_shape t" and "0 < m_load_factor t"
  shows "\<exists>n b t'. insert_ht n hashFunc keyEqual t key v = Some (b, t')"
proof -
  from assms(1) have "0 < m_size t" by (simp add: table_shape_def)
  from room_exists [OF assms(2) this, of "potential t + 1"]
  obtain n where n: "room (potential t + 1) t n" by blast
  have "potential t + 1 \<le> potential t + 1" by simp
  from insert_ht_returns_aux [rule_format, OF assms this n, of hashFunc keyEqual key v]
  show ?thesis by blast
qed

lemma insert_each_returns:
  fixes t :: "('k, 'd) HashTbl"
  assumes "table_shape t" and "0 < m_load_factor t"
  shows "\<exists>n t'. insert_each n hashFunc keyEqual t es = Some t'"
proof -
  let ?C = "potential t + length es"
  from assms(1) have "0 < m_size t" by (simp add: table_shape_def)
  from room_exists [OF assms(2) this, of ?C]
  obtain n where n: "room ?C t n" by blast
  have ins: "\<And>(t :: ('k, 'd) HashTbl) key v. table_shape t \<Longrightarrow> 0 < m_load_factor t \<Longrightarrow>
      potential t + 1 \<le> ?C \<Longrightarrow> room ?C t n \<Longrightarrow>
      \<exists>b t'. insert_ht n hashFunc keyEqual t key v = Some (b, t') \<and> table_shape t' \<and>
        potential t' \<le> potential t + 1 \<and> m_size t \<le> m_size t' \<and>
        m_load_factor t' = m_load_factor t"
    by (rule insert_ht_returns_aux [rule_format])
  have "potential t + length es \<le> ?C" by simp
  from insert_each_returns_step [OF ins assms this n] show ?thesis by blast
qed




lemma maxlf_ctor_shape [simp]:
  "table_shape (max_load_factor_set (HashTbl_ctor sz) mlf)"
  "m_count (max_load_factor_set (HashTbl_ctor sz) mlf) = 0"
  "entries (max_load_factor_set (HashTbl_ctor sz) mlf) = []"
  "m_load_factor (max_load_factor_set (HashTbl_ctor sz) mlf) = mlf"
  using find_next_prime_pos [of sz]
  by (simp_all add: table_shape_def max_load_factor_set_def HashTbl_ctor_def entries_def)


lemma hash_inv_shape: "hash_inv hashFunc t \<Longrightarrow> table_shape t"
  by (simp add: hash_inv_def)


section \<open>The claim about termination\<close>



section \<open>The claim about the prime sizes\<close>

text \<open>
  C4. \<^verbatim>\<open>is_prime\<close> is documented as "True if it is prime, false otherwise", and
  \<^verbatim>\<open>find_next_prime\<close> as returning a prime number. The code accepts 1: it is neither 2 nor
  3, it is no multiple of 2 or 3, and the loop does not run. So \<^verbatim>\<open>find_next_prime\<close>
  answers 1 for 0 and for 1, and a table constructed with capacity 0 or 1 has capacity 1,
  which is not a prime.
\<close>

theorem is_prime_accepts_one:
  "is_prime 1 \<and> \<not> prime_nat 1 \<and> find_next_prime 0 = 1 \<and> find_next_prime 1 = 1 \<and>
   m_size (HashTbl_ctor 0) = 1 \<and> m_size (HashTbl_ctor 1) = 1"
  by (simp add: is_prime_def is_prime_loop.simps prime_nat_def find_next_prime.simps HashTbl_ctor_def)

section \<open>Sequences of insertions\<close>

lemma fold_put_entry_rev:
  "fold put_entry es m = m ++ map_of (rev (map (\<lambda>e. (m_key e, m_data e)) es))"
proof (induction es arbitrary: m)
  case Nil
  show ?case by simp
next
  case (Cons e es)
  have "fold put_entry (e # es) m = fold put_entry es (m(m_key e \<mapsto> m_data e))"
    by (simp add: put_entry_def)
  also have "\<dots> = m(m_key e \<mapsto> m_data e) ++ map_of (rev (map (\<lambda>e. (m_key e, m_data e)) es))"
    by (rule Cons.IH)
  also have "m(m_key e \<mapsto> m_data e) = m ++ map_of [(m_key e, m_data e)]" by simp
  finally show ?case by (simp only: map_add_assoc map_of_append rev.simps list.map)
qed

lemma filter_key_singleton:
  "distinct (map m_key es) \<Longrightarrow> e \<in> set es \<Longrightarrow> filter (\<lambda>x. m_key x = m_key e) es = [e]"
proof (induction es)
  case Nil
  then show ?case by simp
next
  case (Cons x es)
  show ?case
  proof (cases "x = e")
    case True
    with Cons.prems(1) have "m_key e \<notin> m_key ` set es" by simp
    then have "\<forall>y\<in>set es. m_key y \<noteq> m_key e" by (metis imageI)
    then have "filter (\<lambda>x. m_key x = m_key e) es = []" by (simp add: filter_empty_conv)
    with True show ?thesis by simp
  next
    case False
    with Cons.prems have "e \<in> set es" "m_key x \<noteq> m_key e" "distinct (map m_key es)" by auto
    with Cons.IH show ?thesis by simp
  qed
qed

lemma entries_of_key:
  fixes t :: "('k, 'd) HashTbl"
  assumes inv: "hash_inv hashFunc t"
  shows "filter (\<lambda>x. m_key x = k) (entries t) =
     (case contents t k of None \<Rightarrow> [] | Some v \<Rightarrow> [\<lparr>m_key = k, m_data = v\<rparr>])"
proof (cases "contents t k")
  case None
  then have "\<forall>x\<in>set (entries t). m_key x \<noteq> k" by (auto simp: contents_None_iff)
  then have "filter (\<lambda>x. m_key x = k) (entries t) = []" by (simp add: filter_empty_conv)
  with None show ?thesis by simp
next
  case (Some v)
  then have e: "\<lparr>m_key = k, m_data = v\<rparr> \<in> set (entries t)" by (simp add: contents_Some_iff [OF inv])
  from inv have "distinct (map m_key (entries t))" by (simp add: hash_inv_def)
  from filter_key_singleton [OF this e] Some show ?thesis by simp
qed

text \<open>
  C1. Start from any table that satisfies the invariant (a table fresh from the
  constructor does) and run a sequence of \<^verbatim>\<open>insert\<close> calls with the natural equality of
  the keys. When the calls have returned, no two entries of the table have the same key;
  for every key of the sequence the table holds exactly one entry, and its value is the
  value of the last call for the key; the entries of the other keys are as before. With
  a positive load factor the calls do return.
\<close>

theorem insert_each_unique_last_value:
  fixes t0 :: "('k, 'd) HashTbl"
  assumes inv: "hash_inv hashFunc t0"
  shows "(insert_each fuel hashFunc (=) t0 kvs = Some t \<longrightarrow>
           distinct (map m_key (entries t)) \<and>
           (\<forall>k\<in>m_key ` set kvs. \<exists>v.
               map_of (rev (map (\<lambda>e. (m_key e, m_data e)) kvs)) k = Some v \<and>
               filter (\<lambda>x. m_key x = k) (entries t) = [\<lparr>m_key = k, m_data = v\<rparr>]) \<and>
           (\<forall>k. k \<notin> m_key ` set kvs \<longrightarrow>
               filter (\<lambda>x. m_key x = k) (entries t) = filter (\<lambda>x. m_key x = k) (entries t0))) \<and>
         (0 < m_load_factor t0 \<longrightarrow> (\<exists>n t'. insert_each n hashFunc (=) t0 kvs = Some t'))"
proof (intro conjI impI)
  assume "0 < m_load_factor t0"
  from insert_each_returns [OF hash_inv_shape [OF inv] this]
  show "\<exists>n t'. insert_each n hashFunc (=) t0 kvs = Some t'" .
next
  let ?last = "map_of (rev (map (\<lambda>e. (m_key e, m_data e)) kvs))"
  assume run: "insert_each fuel hashFunc (=) t0 kvs = Some t"
  note r = insert_each_contents [OF inv run]
  from r(2) have c: "contents t = contents t0 ++ ?last" by (simp only: fold_put_entry_rev)
  from r(1) show "distinct (map m_key (entries t))" by (simp add: hash_inv_def)
  have dom: "dom ?last = m_key ` set kvs"
    by (simp add: dom_map_of_conv_image_fst image_image)
  show "\<forall>k\<in>m_key ` set kvs. \<exists>v. ?last k = Some v \<and>
      filter (\<lambda>x. m_key x = k) (entries t) = [\<lparr>m_key = k, m_data = v\<rparr>]"
  proof
    fix k
    assume "k \<in> m_key ` set kvs"
    with dom obtain v where v: "?last k = Some v" by blast
    with c have "contents t k = Some v" by (simp add: map_add_def)
    with entries_of_key [OF r(1), of k] v
    show "\<exists>v. ?last k = Some v \<and> filter (\<lambda>x. m_key x = k) (entries t) = [\<lparr>m_key = k, m_data = v\<rparr>]"
      by simp
  qed
  show "\<forall>k. k \<notin> m_key ` set kvs \<longrightarrow>
      filter (\<lambda>x. m_key x = k) (entries t) = filter (\<lambda>x. m_key x = k) (entries t0)"
  proof (intro allI impI)
    fix k
    assume "k \<notin> m_key ` set kvs"
    with dom have "?last k = None" by blast
    with c have "contents t k = contents t0 k" by (simp add: map_add_def)
    then show "filter (\<lambda>x. m_key x = k) (entries t) = filter (\<lambda>x. m_key x = k) (entries t0)"
      by (simp only: entries_of_key [OF r(1)] entries_of_key [OF inv])
  qed
qed

theorem insert_each_unique_last_value_witness:
  "hash_inv (\<lambda>k. k) (HashTbl_ctor 2 :: (nat, string) HashTbl) \<and>
   insert_each 1 (\<lambda>k. k) (=) (HashTbl_ctor 2)
     [\<lparr>m_key = 1::nat, m_data = ''a''\<rparr>, \<lparr>m_key = 2, m_data = ''b''\<rparr>,
      \<lparr>m_key = 1, m_data = ''c''\<rparr>, \<lparr>m_key = 3, m_data = ''d''\<rparr>] =
     Some \<lparr>m_size = 5, m_count = 3, m_load_factor = 1,
           m_table = [[], [\<lparr>m_key = 1, m_data = ''c''\<rparr>], [\<lparr>m_key = 2, m_data = ''b''\<rparr>],
                      [\<lparr>m_key = 3, m_data = ''d''\<rparr>], []]\<rparr> \<and>
   distinct (map m_key (entries \<lparr>m_size = 5, m_count = 3, m_load_factor = 1,
           m_table = [[], [\<lparr>m_key = 1::nat, m_data = ''c''\<rparr>], [\<lparr>m_key = 2, m_data = ''b''\<rparr>],
                      [\<lparr>m_key = 3, m_data = ''d''\<rparr>], []]\<rparr>)) \<and>
   filter (\<lambda>x. m_key x = 1) (entries \<lparr>m_size = 5, m_count = 3, m_load_factor = 1,
           m_table = [[], [\<lparr>m_key = 1::nat, m_data = ''c''\<rparr>], [\<lparr>m_key = 2, m_data = ''b''\<rparr>],
                      [\<lparr>m_key = 3, m_data = ''d''\<rparr>], []]\<rparr>) = [\<lparr>m_key = 1, m_data = ''c''\<rparr>]"
proof -
  let ?kvs = "[\<lparr>m_key = 1::nat, m_data = ''a''\<rparr>, \<lparr>m_key = 2, m_data = ''b''\<rparr>,
      \<lparr>m_key = 1, m_data = ''c''\<rparr>, \<lparr>m_key = 3, m_data = ''d''\<rparr>]"
  let ?t = "\<lparr>m_size = 5, m_count = 3, m_load_factor = 1,
           m_table = [[], [\<lparr>m_key = 1::nat, m_data = ''c''\<rparr>], [\<lparr>m_key = 2, m_data = ''b''\<rparr>],
                      [\<lparr>m_key = 3, m_data = ''d''\<rparr>], []]\<rparr>"
  have h: "hash_inv (\<lambda>k. k) (HashTbl_ctor 2 :: (nat, string) HashTbl)"
    by (rule HashTbl_ctor_inv)
  have run: "insert_each 1 (\<lambda>k. k) (=) (HashTbl_ctor 2) ?kvs = Some ?t" by code_simp
  from insert_each_unique_last_value [OF h, of 1 ?kvs ?t] run
  have d: "distinct (map m_key (entries ?t))"
    and a: "\<forall>k\<in>m_key ` set ?kvs. \<exists>v. map_of (rev (map (\<lambda>e. (m_key e, m_data e)) ?kvs)) k = Some v \<and>
               filter (\<lambda>x. m_key x = k) (entries ?t) = [\<lparr>m_key = k, m_data = v\<rparr>]"
    by blast+
  have "1 \<in> m_key ` set ?kvs" by simp
  with a have "\<exists>v. map_of (rev (map (\<lambda>e. (m_key e, m_data e)) ?kvs)) 1 = Some v \<and>
               filter (\<lambda>x. m_key x = 1) (entries ?t) = [\<lparr>m_key = 1, m_data = v\<rparr>]" by (rule bspec)
  then have f: "filter (\<lambda>x. m_key x = 1) (entries ?t) = [\<lparr>m_key = 1, m_data = ''c''\<rparr>]" by auto
  from h run d f show ?thesis by blast
qed

section \<open>Erase and the counter\<close>

lemma distinct_keys_outside_chain:
  assumes "distinct (map m_key (A @ c @ B))" and "x \<in> set c"
  shows "filter (\<lambda>e. m_key x \<noteq> m_key e) A = A" and "filter (\<lambda>e. m_key x \<noteq> m_key e) B = B"
proof -
  from assms have "m_key x \<notin> m_key ` set A" and "m_key x \<notin> m_key ` set B" by auto
  then have "\<forall>e\<in>set A. m_key x \<noteq> m_key e" and "\<forall>e\<in>set B. m_key x \<noteq> m_key e"
    by (metis imageI)+
  then show "filter (\<lambda>e. m_key x \<noteq> m_key e) A = A" and "filter (\<lambda>e. m_key x \<noteq> m_key e) B = B"
    by (simp_all add: filter_id_conv)
qed

lemma erase_spec:
  fixes t :: "('k, 'd) HashTbl"
  assumes inv: "hash_inv hashFunc t" and er: "erase hashFunc (=) t key = (b, t')"
  shows "hash_inv hashFunc t'" and "contents t' = (contents t)(key := None)"
    and "b \<longleftrightarrow> contents t key \<noteq> None"
    and "m_size t' = m_size t" and "m_load_factor t' = m_load_factor t"
proof -
  let ?i = "hashFunc key mod m_size t"
  let ?c = "m_table t ! ?i"
  let ?P = "\<lambda>e. key \<noteq> m_key e"
  show "m_size t' = m_size t" and "m_load_factor t' = m_load_factor t"
    using er by (auto simp: erase_def Let_def split: option.splits)
  have "hash_inv hashFunc t' \<and> contents t' = (contents t)(key := None) \<and> (b \<longleftrightarrow> contents t key \<noteq> None)"
  proof (cases "find_if (\<lambda>hashEntry. key = m_key hashEntry) ?c")
    case None
    with find_if_contents [OF inv, of key] have c: "contents t key = None" by simp
    from None er have "\<not> b" "t' = t" by (simp_all add: erase_def Let_def)
    moreover from c have "(contents t)(key := None) = contents t" by (rule fun_upd_idem)
    ultimately show ?thesis using inv c by simp
  next
    case (Some j)
    with find_if_contents [OF inv, of key] have j: "j < length ?c" and k: "m_key (?c ! j) = key"
      and c: "contents t key \<noteq> None" by simp_all
    from Some er have b: "b"
      and t': "t' = t\<lparr>m_table := (m_table t)[?i := filter ?P ?c], m_count := size_dec (m_count t)\<rparr>"
      by (simp_all add: erase_def Let_def)
    from inv have shape: "table_shape t" by (rule hash_inv_shape)
    then have i: "?i < length (m_table t)" by (rule index_in_range)
    let ?A = "concat (take ?i (m_table t))"
    let ?B = "concat (drop (Suc ?i) (m_table t))"
    have e0: "entries t = ?A @ ?c @ ?B" unfolding entries_def by (rule concat_split_nth [OF i])
    from inv have d0: "distinct (map m_key (entries t))" by (simp add: hash_inv_def)
    from j have mem: "?c ! j \<in> set ?c" by (rule nth_mem)
    from d0 have dd: "distinct (map m_key (?A @ ?c @ ?B))" by (simp only: e0)
    note out = distinct_keys_outside_chain [OF dd mem, unfolded k]
    have "entries t' = ?A @ filter ?P ?c @ ?B"
      unfolding t' entries_def by (simp add: concat_list_update [OF i])
    also have "\<dots> = filter ?P (?A @ ?c @ ?B)" by (simp add: out)
    finally have e1: "entries t' = filter ?P (entries t)" by (simp only: e0)
    have d1: "distinct (map m_key (entries t'))"
      unfolding e1 using d0 by (rule distinct_map_filter)
    have set1: "set (entries t') = {e \<in> set (entries t). m_key e \<noteq> key}"
      unfolding e1 by auto
    from map_of_entries_del [OF d0 d1 set1]
    have con: "contents t' = (contents t)(key := None)" by (simp add: contents_def)
    from mem chain_subset_entries [OF i] have mem0: "?c ! j \<in> set (entries t)" by auto
    have one: "filter (\<lambda>x. m_key x = key) (entries t) = [?c ! j]"
      using filter_key_singleton [OF d0 mem0] k by simp
    have "filter (\<lambda>x. \<not> ?P x) (entries t) = filter (\<lambda>x. m_key x = key) (entries t)"
      by (rule filter_cong) auto
    with one have "length (filter (\<lambda>x. \<not> ?P x) (entries t)) = 1" by simp
    with sum_length_filter_compl [of ?P "entries t"]
    have len: "length (entries t) = length (entries t') + 1" by (simp add: e1)
    from inv have "m_count t = length (entries t)" by (simp add: hash_inv_def)
    with len have dec: "size_dec (m_count t) = length (entries t')" by (simp add: size_dec_def)
    have "m_count t' = size_dec (m_count t)" by (simp add: t')
    also note dec
    finally have cnt: "m_count t' = length (entries t')" .
    have place: "\<forall>i\<in>{0..<m_size t'}. \<forall>e\<in>set (m_table t' ! i). hashFunc (m_key e) mod m_size t' = i"
    proof (intro ballI)
      fix i' e
      assume "i' \<in> {0..<m_size t'}" and e: "e \<in> set (m_table t' ! i')"
      then have i': "i' \<in> {0..<m_size t}" by (simp add: t')
      have "e \<in> set (m_table t ! i')"
      proof (cases "i' = ?i")
        case True
        with e i show ?thesis by (simp add: t')
      next
        case False
        with e show ?thesis by (simp add: t')
      qed
      with inv i' show "hashFunc (m_key e) mod m_size t' = i'" by (simp add: hash_inv_def t')
    qed
    from shape have "table_shape t'" by (simp add: table_shape_def t')
    with cnt place d1 have "hash_inv hashFunc t'" by (simp add: hash_inv_def)
    with con b c show ?thesis by simp
  qed
  then show "hash_inv hashFunc t'" and "contents t' = (contents t)(key := None)"
    and "b \<longleftrightarrow> contents t key \<noteq> None" by blast+
qed

lemma finite_dom_contents: "finite (dom (contents t))"
  by (simp add: contents_def finite_dom_map_of)

lemma count_after_insert:
  fixes t :: "('k, 'd) HashTbl"
  assumes "hash_inv hashFunc t" and "insert_ht n hashFunc (=) t key v = Some (b, t')"
  shows "m_count t' = (if b then m_count t + 1 else m_count t)"
proof -
  note s = insert_ht_spec [OF assms]
  have "card (dom (contents t')) = (if b then card (dom (contents t)) + 1 else card (dom (contents t)))"
  proof (cases b)
    case True
    with s(3) have "key \<notin> dom (contents t)" by (simp add: domIff)
    with True show ?thesis by (simp add: s(2) finite_dom_contents)
  next
    case False
    with s(3) have "key \<in> dom (contents t)" by (simp add: domIff)
    with False show ?thesis by (simp add: s(2) insert_absorb)
  qed
  then show ?thesis by (simp only: count_is_card_dom [OF assms(1)] count_is_card_dom [OF s(1)])
qed

lemma count_after_erase:
  fixes t :: "('k, 'd) HashTbl"
  assumes "hash_inv hashFunc t" and "erase hashFunc (=) t key = (b, t')"
  shows "m_count t = (if b then m_count t' + 1 else m_count t')"
proof -
  note s = erase_spec [OF assms]
  have "card (dom (contents t)) = (if b then card (dom (contents t')) + 1 else card (dom (contents t')))"
  proof (cases b)
    case True
    with s(3) have "key \<in> dom (contents t)" by (simp add: domIff)
    with True show ?thesis
      using card_Suc_Diff1 [OF finite_dom_contents, of key t] by (simp add: s(2))
  next
    case False
    with s(3) have "key \<notin> dom (contents t)" by (simp add: domIff)
    with False show ?thesis by (simp add: s(2))
  qed
  then show ?thesis by (simp only: count_is_card_dom [OF assms(1)] count_is_card_dom [OF s(1)])
qed

section \<open>More fuel changes no result\<close>

lemma insert_each_fuel_step:
  fixes t :: "('k, 'd) HashTbl"
  assumes ins: "\<And>(t :: ('k, 'd) HashTbl) key v r.
      insert_ht n hashFunc keyEqual t key v = Some r \<Longrightarrow>
      insert_ht (Suc n) hashFunc keyEqual t key v = Some r"
  shows "insert_each n hashFunc keyEqual t es = Some r \<Longrightarrow>
      insert_each (Suc n) hashFunc keyEqual t es = Some r"
proof (induction es arbitrary: t)
  case Nil
  then show ?case by simp
next
  case (Cons e es)
  from Cons.prems obtain b t1 where
    i1: "insert_ht n hashFunc keyEqual t (m_key e) (m_data e) = Some (b, t1)"
    and rest: "insert_each n hashFunc keyEqual t1 es = Some r"
    by (auto split: option.splits)
  from ins [OF i1] Cons.IH [OF rest] show ?case by simp
qed

lemma insert_ht_fuel_step:
  fixes t :: "('k, 'd) HashTbl"
  assumes reh: "\<And>(t :: ('k, 'd) HashTbl) r.
      rehash n hashFunc keyEqual t = Some r \<Longrightarrow> rehash (Suc n) hashFunc keyEqual t = Some r"
    and ins: "insert_ht n hashFunc keyEqual t key v = Some r"
  shows "insert_ht (Suc n) hashFunc keyEqual t key v = Some r"
proof -
  obtain b t1 where step: "insert_step hashFunc keyEqual t key v = (b, t1)"
    by (cases "insert_step hashFunc keyEqual t key v")
  show ?thesis
  proof (cases "load_exceeded t1")
    case False
    from ins have "r = (b, t1)" by (simp add: insert_ht_step step False)
    then show ?thesis by (simp add: insert_ht_step step False)
  next
    case True
    from ins obtain t' where r: "rehash n hashFunc keyEqual t1 = Some t'" "r = (b, t')"
      by (auto simp: insert_ht_step step True)
    from reh [OF r(1)] step True r(2) show ?thesis by (simp add: insert_ht_step)
  qed
qed

lemma fuel_Suc:
  "(\<forall>(t :: ('k, 'd) HashTbl) key v r. insert_ht n hashFunc keyEqual t key v = Some r \<longrightarrow>
      insert_ht (Suc n) hashFunc keyEqual t key v = Some r) \<and>
   (\<forall>(t :: ('k, 'd) HashTbl) r. rehash n hashFunc keyEqual t = Some r \<longrightarrow>
      rehash (Suc n) hashFunc keyEqual t = Some r)"
proof (induction n)
  case 0
  have reh: "\<And>(t :: ('k, 'd) HashTbl) r.
      rehash 0 hashFunc keyEqual t = Some r \<Longrightarrow> rehash (Suc 0) hashFunc keyEqual t = Some r"
    by simp
  show ?case
  proof (rule conjI)
    show "\<forall>(t :: ('k, 'd) HashTbl) key v r. insert_ht 0 hashFunc keyEqual t key v = Some r \<longrightarrow>
      insert_ht (Suc 0) hashFunc keyEqual t key v = Some r"
      using insert_ht_fuel_step [OF reh] by blast
    show "\<forall>(t :: ('k, 'd) HashTbl) r. rehash 0 hashFunc keyEqual t = Some r \<longrightarrow>
      rehash (Suc 0) hashFunc keyEqual t = Some r" by simp
  qed
next
  case (Suc n)
  have ins: "\<And>(t :: ('k, 'd) HashTbl) key v r.
      insert_ht n hashFunc keyEqual t key v = Some r \<Longrightarrow>
      insert_ht (Suc n) hashFunc keyEqual t key v = Some r"
    by (rule Suc.IH [THEN conjunct1, rule_format])
  have reh: "\<And>(t :: ('k, 'd) HashTbl) r.
      rehash (Suc n) hashFunc keyEqual t = Some r \<Longrightarrow> rehash (Suc (Suc n)) hashFunc keyEqual t = Some r"
  proof -
    fix t :: "('k, 'd) HashTbl" and r
    assume "rehash (Suc n) hashFunc keyEqual t = Some r"
    then have "insert_each n hashFunc keyEqual
        (t\<lparr>m_size := find_next_prime (2 * m_size t),
           m_table := replicate (find_next_prime (2 * m_size t)) [], m_count := 0\<rparr>)
        (concat (map (\<lambda>index. m_table t ! index) [0..<m_size t])) = Some r"
      by (simp add: Let_def)
    from insert_each_fuel_step [OF ins this]
    show "rehash (Suc (Suc n)) hashFunc keyEqual t = Some r" by (simp add: Let_def)
  qed
  show ?case
  proof (rule conjI)
    show "\<forall>(t :: ('k, 'd) HashTbl) key v r. insert_ht (Suc n) hashFunc keyEqual t key v = Some r \<longrightarrow>
      insert_ht (Suc (Suc n)) hashFunc keyEqual t key v = Some r"
      using insert_ht_fuel_step [OF reh] by blast
    show "\<forall>(t :: ('k, 'd) HashTbl) r. rehash (Suc n) hashFunc keyEqual t = Some r \<longrightarrow>
      rehash (Suc (Suc n)) hashFunc keyEqual t = Some r"
      using reh by blast
  qed
qed

lemma insert_ht_fuel_mono:
  fixes t :: "('k, 'd) HashTbl"
  assumes "insert_ht n hashFunc keyEqual t key v = Some r" and "n \<le> m"
  shows "insert_ht m hashFunc keyEqual t key v = Some r"
  using assms(2,1)
proof (induction m rule: dec_induct)
  case base
  then show ?case .
next
  case (step m)
  from fuel_Suc [of m hashFunc keyEqual, THEN conjunct1, rule_format, OF step.IH [OF step.prems]]
  show ?case .
qed

lemma insert_each_fuel_mono:
  fixes t :: "('k, 'd) HashTbl"
  assumes "insert_each n hashFunc keyEqual t es = Some r" and "n \<le> m"
  shows "insert_each m hashFunc keyEqual t es = Some r"
  using assms(2,1)
proof (induction m rule: dec_induct)
  case base
  then show ?case .
next
  case (step m)
  have ins: "\<And>(t :: ('k, 'd) HashTbl) key v r.
      insert_ht m hashFunc keyEqual t key v = Some r \<Longrightarrow>
      insert_ht (Suc m) hashFunc keyEqual t key v = Some r"
    by (rule fuel_Suc [THEN conjunct1, rule_format])
  from insert_each_fuel_step [OF ins step.IH [OF step.prems]] show ?case .
qed

text \<open>A call that returns without fuel has not rehashed: the capacity is as before.\<close>

lemma insert_ht_no_fuel_size:
  assumes "insert_ht 0 hashFunc keyEqual t key v = Some (b, t')"
  shows "m_size t' = m_size t" and "\<not> load_exceeded t'"
    and "insert_step hashFunc keyEqual t key v = (b, t')"
proof -
  obtain b1 t1 where step: "insert_step hashFunc keyEqual t key v = (b1, t1)"
    by (cases "insert_step hashFunc keyEqual t key v")
  with assms have ne: "\<not> load_exceeded t1" by (auto simp: insert_ht_step split: if_splits)
  with assms step have eq: "b = b1" "t' = t1" by (simp_all add: insert_ht_step)
  with step show "insert_step hashFunc keyEqual t key v = (b, t')" by simp
  from eq ne show "\<not> load_exceeded t'" by simp
  from insert_step_potential(2) [OF step] eq show "m_size t' = m_size t" by simp
qed

lemma insert_each_no_fuel_size:
  "insert_each 0 hashFunc keyEqual t es = Some t' \<Longrightarrow> m_size t' = m_size t"
proof (induction es arbitrary: t)
  case Nil
  then show ?case by simp
next
  case (Cons e es)
  from Cons.prems obtain b t1 where
    i1: "insert_ht 0 hashFunc keyEqual t (m_key e) (m_data e) = Some (b, t1)"
    and rest: "insert_each 0 hashFunc keyEqual t1 es = Some t'"
    by (auto split: option.splits)
  from insert_ht_no_fuel_size(1) [OF i1] Cons.IH [OF rest] show ?case by simp
qed

section \<open>Sequences of insert and erase calls\<close>

lemma run_calls_count:
  fixes t0 :: "('k, 'd) HashTbl"
  shows "hash_inv hashFunc t0 \<Longrightarrow> run_calls fuel hashFunc (=) t0 cs = Some (bs, t) \<Longrightarrow>
     hash_inv hashFunc t \<and> length bs = length cs \<and>
     m_count t + erased cs bs = m_count t0 + inserted cs bs"
proof (induction cs arbitrary: t0 bs)
  case Nil
  then show ?case by (simp add: inserted_def erased_def)
next
  case (Cons c cs)
  show ?case
  proof (cases c)
    case (Insert key v)
    with Cons.prems(2) obtain b t1 bs' where
      i1: "insert_ht fuel hashFunc (=) t0 key v = Some (b, t1)"
      and rest: "run_calls fuel hashFunc (=) t1 cs = Some (bs', t)" and bs: "bs = b # bs'"
      by (auto split: option.splits)
    note IH = Cons.IH [OF insert_ht_spec(1) [OF Cons.prems(1) i1] rest]
    from count_after_insert [OF Cons.prems(1) i1] IH Insert bs
    show ?thesis by (simp add: inserted_def erased_def)
  next
    case (Erase key)
    with Cons.prems(2) obtain b t1 bs' where
      e1: "erase hashFunc (=) t0 key = (b, t1)"
      and rest: "run_calls fuel hashFunc (=) t1 cs = Some (bs', t)" and bs: "bs = b # bs'"
      by (auto split: option.splits prod.splits)
    note IH = Cons.IH [OF erase_spec(1) [OF Cons.prems(1) e1] rest]
    from count_after_erase [OF Cons.prems(1) e1] IH Erase bs
    show ?thesis by (simp add: inserted_def erased_def)
  qed
qed

lemma run_calls_prefix:
  "run_calls fuel hashFunc keyEqual t0 cs = Some (bs, t) \<Longrightarrow>
     \<exists>tn. run_calls fuel hashFunc keyEqual t0 (take n cs) = Some (take n bs, tn)"
proof (induction cs arbitrary: t0 bs n)
  case Nil
  then show ?case by simp
next
  case (Cons c cs)
  show ?case
  proof (cases n)
    case 0
    then show ?thesis by simp
  next
    case (Suc n')
    show ?thesis
    proof (cases c)
      case (Insert key v)
      with Cons.prems obtain b t1 bs' where
        i1: "insert_ht fuel hashFunc keyEqual t0 key v = Some (b, t1)"
        and rest: "run_calls fuel hashFunc keyEqual t1 cs = Some (bs', t)" and bs: "bs = b # bs'"
        by (auto split: option.splits)
      from Cons.IH [OF rest, of n'] i1 Insert bs Suc show ?thesis by auto
    next
      case (Erase key)
      with Cons.prems obtain b t1 bs' where
        e1: "erase hashFunc keyEqual t0 key = (b, t1)"
        and rest: "run_calls fuel hashFunc keyEqual t1 cs = Some (bs', t)" and bs: "bs = b # bs'"
        by (auto split: option.splits prod.splits)
      from Cons.IH [OF rest, of n'] e1 Erase bs Suc show ?thesis by auto
    qed
  qed
qed

lemma run_calls_fuel_mono:
  "run_calls n hashFunc keyEqual t cs = Some r \<Longrightarrow> n \<le> m \<Longrightarrow>
     run_calls m hashFunc keyEqual t cs = Some r"
proof (induction cs arbitrary: t r)
  case Nil
  then show ?case by simp
next
  case (Cons c cs)
  show ?case
  proof (cases c)
    case (Insert key v)
    with Cons.prems(1) obtain b t1 bs' t' where
      i1: "insert_ht n hashFunc keyEqual t key v = Some (b, t1)"
      and rest: "run_calls n hashFunc keyEqual t1 cs = Some (bs', t')" and r: "r = (b # bs', t')"
      by (auto split: option.splits)
    from insert_ht_fuel_mono [OF i1 Cons.prems(2)] Cons.IH [OF rest Cons.prems(2)] Insert r
    show ?thesis by simp
  next
    case (Erase key)
    with Cons.prems(1) obtain b t1 bs' t' where
      e1: "erase hashFunc keyEqual t key = (b, t1)"
      and rest: "run_calls n hashFunc keyEqual t1 cs = Some (bs', t')" and r: "r = (b # bs', t')"
      by (auto split: option.splits prod.splits)
    from e1 Cons.IH [OF rest Cons.prems(2)] Erase r show ?thesis by simp
  qed
qed

lemma run_calls_returns:
  fixes t :: "('k, 'd) HashTbl"
  shows "hash_inv hashFunc t \<Longrightarrow> 0 < m_load_factor t \<Longrightarrow>
     \<exists>n r. run_calls n hashFunc (=) t cs = Some r"
proof (induction cs arbitrary: t)
  case Nil
  then show ?case by simp
next
  case (Cons c cs)
  show ?case
  proof (cases c)
    case (Insert key v)
    from insert_ht_returns [OF hash_inv_shape [OF Cons.prems(1)] Cons.prems(2), of hashFunc "(=)" key v]
    obtain n1 b t1 where i1: "insert_ht n1 hashFunc (=) t key v = Some (b, t1)" by blast
    note s = insert_ht_spec [OF Cons.prems(1) i1]
    from s(4) Cons.prems(2) have "0 < m_load_factor t1" by simp
    from Cons.IH [OF s(1) this] obtain n2 bs t' where
      rest: "run_calls n2 hashFunc (=) t1 cs = Some (bs, t')" by auto
    have "insert_ht (max n1 n2) hashFunc (=) t key v = Some (b, t1)"
      by (rule insert_ht_fuel_mono [OF i1]) simp
    moreover have "run_calls (max n1 n2) hashFunc (=) t1 cs = Some (bs, t')"
      by (rule run_calls_fuel_mono [OF rest]) simp
    ultimately have "run_calls (max n1 n2) hashFunc (=) t (c # cs) = Some (b # bs, t')"
      using Insert by simp
    then show ?thesis by blast
  next
    case (Erase key)
    obtain b t1 where e1: "erase hashFunc (=) t key = (b, t1)"
      by (cases "erase hashFunc (=) t key")
    note s = erase_spec [OF Cons.prems(1) e1]
    from s(5) Cons.prems(2) have "0 < m_load_factor t1" by simp
    from Cons.IH [OF s(1) this] obtain n2 bs t' where
      rest: "run_calls n2 hashFunc (=) t1 cs = Some (bs, t')" by auto
    with e1 Erase have "run_calls n2 hashFunc (=) t (c # cs) = Some (b # bs, t')" by simp
    then show ?thesis by blast
  qed
qed

text \<open>
  C5. Start from a table that satisfies the invariant and make any sequence of
  \<^verbatim>\<open>insert\<close> and \<^verbatim>\<open>erase\<close> calls, with the natural equality of the keys. At every point of
  the sequence, that is after every prefix of it, \<^verbatim>\<open>size()\<close> is the number of entries in
  all the chains, and it is the size at the start plus the number of \<^verbatim>\<open>insert\<close> calls
  that returned \<^verbatim>\<open>true\<close> minus the number of \<^verbatim>\<open>erase\<close> calls that returned \<^verbatim>\<open>true\<close>; a
  table fresh from the constructor starts at size 0. With a positive load factor every
  such sequence returns.
\<close>

theorem size_ht_counts_calls:
  fixes t0 :: "('k, 'd) HashTbl"
  assumes inv: "hash_inv hashFunc t0"
  shows "(run_calls fuel hashFunc (=) t0 cs = Some (bs, t) \<longrightarrow>
           (\<forall>n. \<exists>tn. run_calls fuel hashFunc (=) t0 (take n cs) = Some (take n bs, tn) \<and>
              size_ht tn = length (entries tn) \<and>
              int (size_ht tn) =
                int (size_ht t0) + int (inserted (take n cs) (take n bs))
                  - int (erased (take n cs) (take n bs)))) \<and>
         size_ht (HashTbl_ctor sz :: ('k, 'd) HashTbl) = 0 \<and>
         (0 < m_load_factor t0 \<longrightarrow> (\<exists>n r. run_calls n hashFunc (=) t0 cs = Some r))"
proof (intro conjI impI allI)
  show "size_ht (HashTbl_ctor sz :: ('k, 'd) HashTbl) = 0" by (simp add: size_ht_def HashTbl_ctor_def)
  {
    assume "0 < m_load_factor t0"
    from run_calls_returns [OF inv this] show "\<exists>n r. run_calls n hashFunc (=) t0 cs = Some r" .
  }
  fix n
  assume run: "run_calls fuel hashFunc (=) t0 cs = Some (bs, t)"
  from run_calls_prefix [OF run, of n] obtain tn where
    tn: "run_calls fuel hashFunc (=) t0 (take n cs) = Some (take n bs, tn)" by blast
  from run_calls_count [OF inv tn] have h: "hash_inv hashFunc tn"
    and c: "m_count tn + erased (take n cs) (take n bs) = m_count t0 + inserted (take n cs) (take n bs)"
    by simp_all
  from h have "size_ht tn = length (entries tn)" by (simp add: size_ht_def hash_inv_def)
  moreover from c have "int (size_ht tn) =
      int (size_ht t0) + int (inserted (take n cs) (take n bs)) - int (erased (take n cs) (take n bs))"
    by (simp add: size_ht_def)
  ultimately show "\<exists>tn. run_calls fuel hashFunc (=) t0 (take n cs) = Some (take n bs, tn) \<and>
      size_ht tn = length (entries tn) \<and>
      int (size_ht tn) =
        int (size_ht t0) + int (inserted (take n cs) (take n bs)) - int (erased (take n cs) (take n bs))"
    using tn by blast
qed

theorem size_ht_counts_calls_witness:
  "hash_inv (\<lambda>k. k) (HashTbl_ctor 2 :: (nat, nat) HashTbl) \<and>
   run_calls 1 (\<lambda>k. k) (=) (HashTbl_ctor 2 :: (nat, nat) HashTbl)
     [Insert 1 10, Insert 2 20, Insert 1 30, Insert 3 40, Erase 2, Erase 7, Insert 2 50] =
   Some ([True, True, False, True, True, False, True],
         \<lparr>m_size = 5, m_count = 3, m_load_factor = 1,
          m_table = [[], [\<lparr>m_key = 1, m_data = 30\<rparr>], [\<lparr>m_key = 2, m_data = 50\<rparr>],
                     [\<lparr>m_key = 3, m_data = 40\<rparr>], []]\<rparr>) \<and>
   (\<exists>tn. run_calls 1 (\<lambda>k. k) (=) (HashTbl_ctor 2 :: (nat, nat) HashTbl)
           (take 5 [Insert 1 10, Insert 2 20, Insert 1 30, Insert 3 40, Erase 2, Erase 7, Insert 2 50]) =
         Some (take 5 [True, True, False, True, True, False, True], tn) \<and>
         size_ht tn = length (entries tn) \<and>
         int (size_ht tn) = int (size_ht (HashTbl_ctor 2 :: (nat, nat) HashTbl)) + 3 - 1)"
proof -
  let ?cs = "[Insert 1 10, Insert 2 20, Insert 1 30, Insert 3 40, Erase 2, Erase 7, Insert 2 50]
    :: (nat, nat) call list"
  let ?bs = "[True, True, False, True, True, False, True]"
  let ?t = "\<lparr>m_size = 5, m_count = 3, m_load_factor = 1,
          m_table = [[], [\<lparr>m_key = 1::nat, m_data = 30::nat\<rparr>], [\<lparr>m_key = 2, m_data = 50\<rparr>],
                     [\<lparr>m_key = 3, m_data = 40\<rparr>], []]\<rparr>"
  have h: "hash_inv (\<lambda>k. k) (HashTbl_ctor 2 :: (nat, nat) HashTbl)" by (rule HashTbl_ctor_inv)
  have run: "run_calls 1 (\<lambda>k. k) (=) (HashTbl_ctor 2 :: (nat, nat) HashTbl) ?cs = Some (?bs, ?t)"
    by code_simp
  have i: "inserted (take 5 ?cs) (take 5 ?bs) = 3" by (simp add: inserted_def)
  have e: "erased (take 5 ?cs) (take 5 ?bs) = 1" by (simp add: erased_def)
  from size_ht_counts_calls [OF h, of 1 ?cs ?bs ?t] run
  have "\<exists>tn. run_calls 1 (\<lambda>k. k) (=) (HashTbl_ctor 2 :: (nat, nat) HashTbl) (take 5 ?cs) =
           Some (take 5 ?bs, tn) \<and>
         size_ht tn = length (entries tn) \<and>
         int (size_ht tn) = int (size_ht (HashTbl_ctor 2 :: (nat, nat) HashTbl))
            + int (inserted (take 5 ?cs) (take 5 ?bs)) - int (erased (take 5 ?cs) (take 5 ?bs))"
    by blast
  then have "\<exists>tn. run_calls 1 (\<lambda>k. k) (=) (HashTbl_ctor 2 :: (nat, nat) HashTbl) (take 5 ?cs) =
           Some (take 5 ?bs, tn) \<and>
         size_ht tn = length (entries tn) \<and>
         int (size_ht tn) = int (size_ht (HashTbl_ctor 2 :: (nat, nat) HashTbl)) + 3 - 1"
    by (simp only: i e of_nat_numeral of_nat_1)
  with h run show ?thesis by blast
qed

section \<open>Growth\<close>





lemma find_next_prime_10: "find_next_prime 10 = 11"
  by (simp add: find_next_prime.simps is_prime_def is_prime_loop.simps)

lemma find_next_prime_22: "find_next_prime 22 = 23"
  by (simp add: find_next_prime.simps is_prime_def is_prime_loop.simps)

lemma HashTbl_ctor_10:
  "m_size (HashTbl_ctor 10) = 11" "m_load_factor (HashTbl_ctor 10) = 1"
  "potential (HashTbl_ctor 10) = 0"
  by (simp_all add: HashTbl_ctor_def find_next_prime_10 potential_def entries_def)





section \<open>Initializer lists\<close>

lemma insert_each_fresh_no_rehash:
  fixes t :: "('k, 'd) HashTbl"
  assumes inv: "hash_inv hashFunc t" and empty: "entries t = []"
    and lf: "m_load_factor t = 1" and fits: "length es \<le> m_size t"
  shows "\<exists>t'. insert_each 0 hashFunc (=) t es = Some t' \<and> m_size t' = m_size t \<and>
           hash_inv hashFunc t' \<and> m_load_factor t' = 1 \<and>
           contents t' = map_of (rev (map (\<lambda>e. (m_key e, m_data e)) es))"
proof -
  let ?C = "length es"
  from inv empty have pot: "potential t = 0" by (simp add: potential_def hash_inv_def)
  have ins: "\<And>(t :: ('k, 'd) HashTbl) key v. table_shape t \<Longrightarrow> 0 < m_load_factor t \<Longrightarrow>
      potential t + 1 \<le> ?C \<Longrightarrow> room ?C t 0 \<Longrightarrow>
      \<exists>b t'. insert_ht 0 hashFunc (=) t key v = Some (b, t') \<and> table_shape t' \<and>
        potential t' \<le> potential t + 1 \<and> m_size t \<le> m_size t' \<and>
        m_load_factor t' = m_load_factor t"
    by (rule insert_ht_returns_aux [rule_format])
  from lf have lf0: "0 < m_load_factor t" by simp
  from pot have pot0: "potential t + length es \<le> ?C" by simp
  from fits lf have room0: "room ?C t 0" by (simp add: room_def)
  from insert_each_returns_step [OF ins hash_inv_shape [OF inv] lf0 pot0 room0]
  obtain t' where t': "insert_each 0 hashFunc (=) t es = Some t'" by blast
  note r = insert_each_contents [OF inv t']
  from empty have "contents t = Map.empty" by (simp add: contents_def)
  with r(2) have "contents t' = map_of (rev (map (\<lambda>e. (m_key e, m_data e)) es))"
    by (simp add: fold_put_entry_rev)
  with t' insert_each_no_fuel_size [OF t'] r(1,3) lf show ?thesis by simp
qed

text \<open>
  C6, as the code has it. The constructor from an initializer list starts from the
  default table, whose capacity is \<^verbatim>\<open>find_next_prime(10)\<close>, that is 11, whatever the list
  is; the assignment of an initializer list starts from capacity \<^verbatim>\<open>find_next_prime\<close> of
  the number of elements, count 0 and load factor 1. Both then insert every element
  with \<^verbatim>\<open>insert\<close>, in the order of the list, so the value of a key is the value of its
  last element. The assignment never rehashes, and neither does the constructor on a list
  of at most 11 elements.
\<close>

theorem initializer_list_tables:
  fixes ilist :: "('k, 'd) HashEntry list"
  shows
    "HashTbl_ilist fuel hashFunc keyEqual ilist =
       insert_each fuel hashFunc keyEqual (HashTbl_ctor 10) ilist \<and>
     m_size (HashTbl_ctor 10 :: ('k, 'd) HashTbl) = 11 \<and>
     (\<exists>n t. HashTbl_ilist n hashFunc (=) ilist = Some t) \<and>
     (HashTbl_ilist fuel hashFunc (=) ilist = Some t \<longrightarrow>
        11 \<le> m_size t \<and> hash_inv hashFunc t \<and>
        contents t = map_of (rev (map (\<lambda>e. (m_key e, m_data e)) ilist))) \<and>
     (length ilist \<le> 11 \<longrightarrow>
        (\<exists>t. HashTbl_ilist 0 hashFunc (=) ilist = Some t \<and> m_size t = 11)) \<and>
     (\<exists>t. assign_ilist 0 hashFunc (=) t0 ilist = Some t \<and>
          assign_ilist fuel hashFunc (=) t0 ilist = Some t \<and>
          m_size t = find_next_prime (length ilist) \<and> m_load_factor t = 1 \<and>
          hash_inv hashFunc t \<and>
          contents t = map_of (rev (map (\<lambda>e. (m_key e, m_data e)) ilist)))"
proof (intro conjI impI)
  let ?t00 = "HashTbl_ctor 10 :: ('k, 'd) HashTbl"
  let ?last = "map_of (rev (map (\<lambda>e. (m_key e, m_data e)) ilist))"
  have inv0: "hash_inv hashFunc ?t00" by (rule HashTbl_ctor_inv)
  show "HashTbl_ilist fuel hashFunc keyEqual ilist =
       insert_each fuel hashFunc keyEqual (HashTbl_ctor 10) ilist"
    by (simp add: HashTbl_ilist_def DEFAULT_SIZE_def)
  show "m_size ?t00 = 11" by (rule HashTbl_ctor_10)
  have "0 < m_load_factor ?t00" by (simp add: HashTbl_ctor_10)
  from insert_each_returns [OF hash_inv_shape [OF inv0] this, of hashFunc "(=)" ilist]
  show "\<exists>n t. HashTbl_ilist n hashFunc (=) ilist = Some t"
    by (simp add: HashTbl_ilist_def DEFAULT_SIZE_def)
  {
    assume "HashTbl_ilist fuel hashFunc (=) ilist = Some t"
    then have run: "insert_each fuel hashFunc (=) ?t00 ilist = Some t"
      by (simp add: HashTbl_ilist_def DEFAULT_SIZE_def)
    note r = insert_each_contents [OF inv0 run]
    from r(4) show "11 \<le> m_size t" by (simp add: HashTbl_ctor_10)
    from r(1) show "hash_inv hashFunc t" .
    from r(2) show "contents t = ?last"
      by (simp add: fold_put_entry_rev HashTbl_ctor_inv(2))
  }
  {
    assume "length ilist \<le> 11"
    then have "length ilist \<le> m_size ?t00" by (simp add: HashTbl_ctor_10)
    from insert_each_fresh_no_rehash [OF inv0 HashTbl_ctor_inv(3) HashTbl_ctor_10(2) this]
    show "\<exists>t. HashTbl_ilist 0 hashFunc (=) ilist = Some t \<and> m_size t = 11"
      by (auto simp: HashTbl_ilist_def DEFAULT_SIZE_def HashTbl_ctor_10)
  }
  let ?N = "find_next_prime (length ilist)"
  let ?ta = "t0\<lparr>m_size := ?N, m_table := replicate ?N [], m_count := 0, m_load_factor := 1\<rparr>"
  have pos: "0 < ?N" by (rule find_next_prime_pos)
  then have inva: "hash_inv hashFunc ?ta"
    by (simp add: hash_inv_def table_shape_def entries_def)
  have ea: "entries ?ta = []" by (simp add: entries_def)
  have lfa: "m_load_factor ?ta = 1" by simp
  have "length ilist \<le> m_size ?ta" using find_next_prime_ge [of "length ilist"] by simp
  from insert_each_fresh_no_rehash [OF inva ea lfa this]
  obtain t' where t': "insert_each 0 hashFunc (=) ?ta ilist = Some t'" "m_size t' = ?N"
    "hash_inv hashFunc t'" "m_load_factor t' = 1" "contents t' = ?last" by auto
  have "insert_each fuel hashFunc (=) ?ta ilist = Some t'"
    by (rule insert_each_fuel_mono [OF t'(1)]) simp
  with t' show "\<exists>t. assign_ilist 0 hashFunc (=) t0 ilist = Some t \<and>
          assign_ilist fuel hashFunc (=) t0 ilist = Some t \<and>
          m_size t = find_next_prime (length ilist) \<and> m_load_factor t = 1 \<and>
          hash_inv hashFunc t \<and> contents t = ?last"
    by (simp add: assign_ilist_def)
qed

text \<open>
  The constructor gives a list of three elements capacity 11; \<^verbatim>\<open>find_next_prime(3)\<close> is 3.
\<close>

theorem HashTbl_ilist_capacity_eleven:
  "map_option m_size
     (HashTbl_ilist 0 (\<lambda>k. k) (=)
        [\<lparr>m_key = 1::nat, m_data = ''a''\<rparr>, \<lparr>m_key = 2, m_data = ''b''\<rparr>,
         \<lparr>m_key = 3, m_data = ''c''\<rparr>]) = Some 11 \<and>
   find_next_prime (length
        [\<lparr>m_key = 1::nat, m_data = ''a''\<rparr>, \<lparr>m_key = 2, m_data = ''b''\<rparr>,
         \<lparr>m_key = 3, m_data = ''c''\<rparr>]) = 3"
  by code_simp

theorem initializer_list_tables_witness:
  "length [\<lparr>m_key = 1::nat, m_data = ''a''\<rparr>, \<lparr>m_key = 2, m_data = ''b''\<rparr>,
           \<lparr>m_key = 1, m_data = ''c''\<rparr>] \<le> 11 \<and>
   HashTbl_ilist 0 (\<lambda>k. k) (=)
     [\<lparr>m_key = 1::nat, m_data = ''a''\<rparr>, \<lparr>m_key = 2, m_data = ''b''\<rparr>, \<lparr>m_key = 1, m_data = ''c''\<rparr>] =
     Some \<lparr>m_size = 11, m_count = 2, m_load_factor = 1,
           m_table = [[], [\<lparr>m_key = 1, m_data = ''c''\<rparr>], [\<lparr>m_key = 2, m_data = ''b''\<rparr>],
                      [], [], [], [], [], [], [], []]\<rparr> \<and>
   contents \<lparr>m_size = 11, m_count = 2, m_load_factor = 1,
           m_table = [[], [\<lparr>m_key = 1::nat, m_data = ''c''\<rparr>], [\<lparr>m_key = 2, m_data = ''b''\<rparr>],
                      [], [], [], [], [], [], [], []]\<rparr> 1 = Some ''c'' \<and>
   (\<exists>t. HashTbl_ilist 0 (\<lambda>k. k) (=)
     [\<lparr>m_key = 1::nat, m_data = ''a''\<rparr>, \<lparr>m_key = 2, m_data = ''b''\<rparr>, \<lparr>m_key = 1, m_data = ''c''\<rparr>] =
     Some t \<and> m_size t = 11)"
proof -
  let ?il = "[\<lparr>m_key = 1::nat, m_data = ''a''\<rparr>, \<lparr>m_key = 2, m_data = ''b''\<rparr>,
              \<lparr>m_key = 1, m_data = ''c''\<rparr>]"
  let ?t = "\<lparr>m_size = 11, m_count = 2, m_load_factor = 1,
           m_table = [[], [\<lparr>m_key = 1::nat, m_data = ''c''\<rparr>], [\<lparr>m_key = 2, m_data = ''b''\<rparr>],
                      [], [], [], [], [], [], [], []]\<rparr>"
  have l: "length ?il \<le> 11" by simp
  have run: "HashTbl_ilist 0 (\<lambda>k. k) (=) ?il = Some ?t" by code_simp
  note T = initializer_list_tables [where fuel = 0 and hashFunc = "\<lambda>k. k" and ilist = ?il and t = ?t]
  from T run have "contents ?t = map_of (rev (map (\<lambda>e. (m_key e, m_data e)) ?il))" by blast
  then have c: "contents ?t 1 = Some ''c''" by simp
  from T l have e: "\<exists>t. HashTbl_ilist 0 (\<lambda>k. k) (=) ?il = Some t \<and> m_size t = 11" by blast
  from l run c e show ?thesis by blast
qed

section \<open>The claim about operator[]\<close>

text \<open>
  With the natural equality as \<^verbatim>\<open>KeyEqual\<close> the operator does what a map's index access
  does: it returns a reference to the entry of the key, after inserting \<^verbatim>\<open>DataType{}\<close> if
  the key had no entry, and a value written through the reference is the value that
  \<^verbatim>\<open>retrieve\<close> finds.
\<close>

lemma index_access_natural_equality:
  fixes t :: "('k, 'd) HashTbl"
  assumes inv: "hash_inv hashFunc t" and run: "index_access fuel hashFunc (=) dflt t key = Some (r, t')"
  shows "hash_inv hashFunc t'"
    and "contents t' = (case contents t key of None \<Rightarrow> (contents t)(key \<mapsto> dflt) | Some v \<Rightarrow> contents t)"
    and "contents t' key = Some (deref t' r)"
    and "retrieve hashFunc (=) (assign_ref t' r w) key data_item = (True, w)"
proof -
  let ?scan = "\<lambda>t :: ('k, 'd) HashTbl.
      find_if (\<lambda>hashEntry. key = m_key hashEntry) (m_table t ! (hashFunc key mod m_size t))"
  have found: "hash_inv hashFunc t' \<and> contents t' key = Some (deref t' r) \<and>
      retrieve hashFunc (=) (assign_ref t' r w) key data_item = (True, w)"
    if inv': "hash_inv hashFunc t'" and j: "?scan t' = Some j" and r: "r = (hashFunc key mod m_size t', j)"
    for t' :: "('k, 'd) HashTbl" and j r
  proof -
    let ?i = "hashFunc key mod m_size t'"
    from find_if_contents [OF inv', of key] j
    have jl: "j < length (m_table t' ! ?i)" and k: "m_key (m_table t' ! ?i ! j) = key"
      and c: "contents t' key = Some (m_data (m_table t' ! ?i ! j))" by simp_all
    from k have "(m_table t' ! ?i ! j)\<lparr>m_data := w\<rparr> = \<lparr>m_key = key, m_data = w\<rparr>" by simp
    then have a: "assign_ref t' r w = assign_entry t' ?i j \<lparr>m_key = key, m_data = w\<rparr>"
      by (simp add: assign_ref_def assign_entry_def r)
    from assign_entry_inv(1,2) [OF inv' jl k, of w]
    have "retrieve hashFunc (=) (assign_ref t' r w) key data_item = (True, w)"
      by (simp add: a retrieve_contents)
    with inv' c r show ?thesis by (simp add: deref_def)
  qed
  have "hash_inv hashFunc t' \<and>
      contents t' = (case contents t key of None \<Rightarrow> (contents t)(key \<mapsto> dflt) | Some v \<Rightarrow> contents t) \<and>
      contents t' key = Some (deref t' r) \<and>
      retrieve hashFunc (=) (assign_ref t' r w) key data_item = (True, w)"
  proof (cases "?scan t")
    case (Some j)
    with run have eq: "t' = t" "r = (hashFunc key mod m_size t, j)"
      by (subst (asm) index_access.simps, simp)+
    from find_if_contents [OF inv, of key] Some have "contents t key \<noteq> None" by simp
    with found [OF inv Some eq(2)] eq(1) show ?thesis by auto
  next
    case None
    with find_if_contents [OF inv, of key] have c: "contents t key = None" by simp
    from run None obtain b t1 where ins: "insert_ht fuel hashFunc (=) t key dflt = Some (b, t1)"
      and run1: "index_access fuel hashFunc (=) dflt t1 key = Some (r, t')"
      by (subst (asm) index_access.simps) (auto split: option.splits)
    note s = insert_ht_spec [OF inv ins]
    from s(2) have c1: "contents t1 key = Some dflt" by simp
    with find_if_contents [OF s(1), of key] obtain j where j: "?scan t1 = Some j"
      by (cases "?scan t1") auto
    with run1 have eq: "t' = t1" "r = (hashFunc key mod m_size t1, j)"
      by (subst (asm) index_access.simps, simp)+
    from found [OF s(1) j eq(2)] eq(1) s(2) c show ?thesis by simp
  qed
  then show "hash_inv hashFunc t'"
    and "contents t' = (case contents t key of None \<Rightarrow> (contents t)(key \<mapsto> dflt) | Some v \<Rightarrow> contents t)"
    and "contents t' key = Some (deref t' r)"
    and "retrieve hashFunc (=) (assign_ref t' r w) key data_item = (True, w)" by blast+
qed

text \<open>
  C7. \<^verbatim>\<open>operator[]\<close> declares \<^verbatim>\<open>KeyEqual keyEqual\<close> and captures it in its predicate like
  \<^verbatim>\<open>insert\<close>, \<^verbatim>\<open>retrieve\<close>, \<^verbatim>\<open>erase\<close>, \<^verbatim>\<open>count\<close> and \<^verbatim>\<open>at\<close> do, but the predicate compares
  with \<^verbatim>\<open>key_ == hashEntry.m_key\<close>. Take keys that are numbers, equal under \<^verbatim>\<open>KeyEqual\<close>
  when they agree modulo 10, with the hash \<open>k mod 10\<close>, and the table that
  \<^verbatim>\<open>insert(1, 5)\<close> makes from \<^verbatim>\<open>HashTbl(10)\<close>. The configured equality finds an entry for
  key 11: \<^verbatim>\<open>retrieve(11, _)\<close> gives 5. \<^verbatim>\<open>operator[](11)\<close> does not find it, calls
  \<^verbatim>\<open>insert(11, DataType{})\<close>, which overwrites the entry, and returns a reference to the
  value 0: the stored value 5 is lost.
\<close>

theorem index_access_ignores_keyEqual:
  "insert_ht 0 (\<lambda>k. k mod 10) (\<lambda>a b. a mod 10 = b mod 10) (HashTbl_ctor 10) (1::nat) (5::nat) =
     Some (True, \<lparr>m_size = 11, m_count = 1, m_load_factor = 1,
                  m_table = [[], [\<lparr>m_key = 1, m_data = 5\<rparr>], [], [], [], [], [], [], [], [], []]\<rparr>) \<and>
   retrieve (\<lambda>k. k mod 10) (\<lambda>a b. a mod 10 = b mod 10)
     \<lparr>m_size = 11, m_count = 1, m_load_factor = 1,
      m_table = [[], [\<lparr>m_key = 1::nat, m_data = 5::nat\<rparr>], [], [], [], [], [], [], [], [], []]\<rparr>
     11 0 = (True, 5) \<and>
   index_access 0 (\<lambda>k. k mod 10) (\<lambda>a b. a mod 10 = b mod 10) 0
     \<lparr>m_size = 11, m_count = 1, m_load_factor = 1,
      m_table = [[], [\<lparr>m_key = 1::nat, m_data = 5::nat\<rparr>], [], [], [], [], [], [], [], [], []]\<rparr>
     11 =
     Some ((1, 0),
           \<lparr>m_size = 11, m_count = 1, m_load_factor = 1,
            m_table = [[], [\<lparr>m_key = 11, m_data = 0\<rparr>], [], [], [], [], [], [], [], [], []]\<rparr>) \<and>
   deref \<lparr>m_size = 11, m_count = 1, m_load_factor = 1,
          m_table = [[], [\<lparr>m_key = 11::nat, m_data = 0::nat\<rparr>], [], [], [], [], [], [], [], [], []]\<rparr>
     (1, 0) = 0"
  by code_simp

section \<open>Where the prime test is right\<close>

lemma square_step_eq: "(2::nat) \<le> d \<Longrightarrow> d * d - 2 * d + 1 = (d - 1) * (d - 1)"
proof -
  assume "2 \<le> d"
  then obtain k where d: "d = k + 2" by (metis le_add_diff_inverse2)
  show ?thesis unfolding d by (simp add: algebra_simps)
qed

lemma square_step_mono:
  fixes d d' :: nat
  assumes "2 \<le> d" and "d \<le> d'"
  shows "d * d - 2 * d + 1 \<le> d' * d' - 2 * d' + 1"
proof -
  from assms have "2 \<le> d'" by simp
  from assms(2) have "(d - 1) * (d - 1) \<le> (d' - 1) * (d' - 1)" by (intro mult_le_mono) simp_all
  then show ?thesis by (simp only: square_step_eq [OF assms(1)] square_step_eq [OF \<open>2 \<le> d'\<close>])
qed

text \<open>A loop that answers \<^verbatim>\<open>true\<close> has tried every divisor \<open>6k - 1\<close> and \<open>6k + 1\<close> up to the bound.\<close>

lemma is_prime_loop_tried:
  assumes "is_prime_loop number divisor" and "2 \<le> divisor"
    and "(divisor + 6 * j) * (divisor + 6 * j) - 2 * (divisor + 6 * j) + 1 \<le> number"
  shows "number mod (divisor + 6 * j - 1) \<noteq> 0 \<and> number mod (divisor + 6 * j + 1) \<noteq> 0"
  using assms
proof (induction j arbitrary: divisor)
  case 0
  from "0.prems"(3) have c: "divisor * divisor - 2 * divisor + 1 \<le> number" by simp
  from "0.prems"(1) c show ?case
    by (subst (asm) is_prime_loop.simps) (simp split: if_splits)
next
  case (Suc j)
  have "divisor \<le> divisor + 6 * Suc j" by simp
  from square_step_mono [OF Suc.prems(2) this] Suc.prems(3)
  have c: "divisor * divisor - 2 * divisor + 1 \<le> number" by simp
  from Suc.prems(1) c have next_loop: "is_prime_loop number (divisor + 6)"
    by (subst (asm) is_prime_loop.simps) (simp split: if_splits)
  have eq: "divisor + 6 + 6 * j = divisor + 6 * Suc j" by simp
  from Suc.prems(3) have "(divisor + 6 + 6 * j) * (divisor + 6 + 6 * j) - 2 * (divisor + 6 + 6 * j) + 1 \<le> number"
    by (simp only: eq)
  from Suc.IH [OF next_loop _ this] show ?case by (simp only: eq) simp
qed

lemma is_prime_loop_tried_upto:
  assumes loop: "is_prime_loop number divisor" and d: "2 \<le> divisor"
    and le: "divisor \<le> d'" and step: "(d' - divisor) mod 6 = 0"
    and bound: "d' * d' - 2 * d' + 1 \<le> number"
  shows "number mod (d' - 1) \<noteq> 0" and "number mod (d' + 1) \<noteq> 0"
proof -
  from le step have eq: "divisor + 6 * ((d' - divisor) div 6) = d'" by presburger
  from bound have "(divisor + 6 * ((d' - divisor) div 6)) * (divisor + 6 * ((d' - divisor) div 6))
      - 2 * (divisor + 6 * ((d' - divisor) div 6)) + 1 \<le> number"
    by (simp only: eq)
  note is_prime_loop_tried [OF loop d this, unfolded eq]
  then show "number mod (d' - 1) \<noteq> 0" and "number mod (d' + 1) \<noteq> 0" by blast+
qed

lemma least_divisor:
  fixes m n :: nat
  assumes "2 \<le> m" and "m < n" and "m dvd n"
  shows "\<exists>p. 2 \<le> p \<and> p dvd n \<and> p * p \<le> n \<and> (\<forall>q. 2 \<le> q \<and> q dvd n \<longrightarrow> p \<le> q)"
proof -
  let ?P = "\<lambda>p. 2 \<le> p \<and> p dvd n"
  let ?p = "LEAST p. ?P p"
  from assms have "?P m" by simp
  then have p: "?P ?p" by (rule LeastI)
  have least: "?p \<le> q" if "?P q" for q using that by (rule Least_le)
  from \<open>?P m\<close> have "?p \<le> m" by (rule Least_le)
  with assms(2) have lt: "?p < n" by simp
  from p obtain q where q: "n = ?p * q" by (auto elim: dvdE)
  from assms have "0 < n" by simp
  have "2 \<le> q"
  proof (rule ccontr)
    assume "\<not> 2 \<le> q"
    then have "q = 0 \<or> q = 1" by auto
    with q lt \<open>0 < n\<close> show False by auto
  qed
  moreover from q have "q dvd n" by (metis dvd_triv_right)
  ultimately have "?p \<le> q" by (intro least) simp
  then have "?p * ?p \<le> ?p * q" by (rule mult_le_mono2)
  with q have "?p * ?p \<le> n" by simp
  with p least show ?thesis by blast
qed

lemma is_prime_sound:
  assumes ip: "is_prime n" and n2: "2 \<le> n"
  shows "prime_nat n"
proof (rule ccontr)
  assume "\<not> prime_nat n"
  with n2 obtain m where m: "2 \<le> m" "m < n" "m dvd n" by (auto simp: prime_nat_def)
  from least_divisor [OF m] obtain p where p: "2 \<le> p" "p dvd n" "p * p \<le> n"
    and least: "\<And>q. 2 \<le> q \<Longrightarrow> q dvd n \<Longrightarrow> p \<le> q" by blast
  have n23: "n \<noteq> 2" "n \<noteq> 3"
  proof -
    from m(1,2) show "n \<noteq> 2" by simp
    show "n \<noteq> 3"
    proof
      assume "n = 3"
      with m(1,2) have "m = 2" by simp
      with m(3) \<open>n = 3\<close> show False by simp
    qed
  qed
  with ip have n2': "n mod 2 \<noteq> 0" and n3: "n mod 3 \<noteq> 0" and loop: "is_prime_loop n 6"
    by (auto simp: is_prime_def split: if_splits)
  have p2: "\<not> 2 dvd p" and p3: "\<not> 3 dvd p"
  proof -
    show "\<not> 2 dvd p"
    proof
      assume "2 dvd p"
      from this p(2) have "2 dvd n" by (rule dvd_trans)
      with n2' show False by (simp add: dvd_eq_mod_eq_0)
    qed
    show "\<not> 3 dvd p"
    proof
      assume "3 dvd p"
      from this p(2) have "3 dvd n" by (rule dvd_trans)
      with n3 show False by (simp add: dvd_eq_mod_eq_0)
    qed
  qed
  from p(2) have pn: "n mod p = 0" by (simp add: dvd_eq_mod_eq_0)
  from p(1) have "1 * p \<le> p * p" by (intro mult_le_mono1) simp
  then have pp: "p \<le> p * p" by simp
  from p2 p3 have "p mod 6 = 1 \<or> p mod 6 = 5" by presburger
  then show False
  proof
    assume r: "p mod 6 = 1"
    with p(1) have p7: "7 \<le> p" by presburger
    then have d6: "6 \<le> p - 1" by simp
    from r p7 have step: "(p - 1 - 6) mod 6 = 0" by presburger
    have "2 \<le> p - 1" using p7 by simp
    from square_step_mono [OF this, of p]
    have "(p - 1) * (p - 1) - 2 * (p - 1) + 1 \<le> p * p - 2 * p + 1" by simp
    also from pp p(1) have "\<dots> \<le> p * p" by linarith
    also note p(3)
    finally have bound: "(p - 1) * (p - 1) - 2 * (p - 1) + 1 \<le> n" .
    from is_prime_loop_tried_upto(2) [OF loop _ d6 step bound] p7 pn show False by simp
  next
    assume r: "p mod 6 = 5"
    with p(1) have p5: "5 \<le> p" by presburger
    then have d6: "6 \<le> p + 1" by simp
    from r have step: "(p + 1 - 6) mod 6 = 0" by presburger
    have "(p + 1) * (p + 1) - 2 * (p + 1) + 1 = (p + 1 - 1) * (p + 1 - 1)"
      by (rule square_step_eq) (use p5 in simp)
    with p(3) have bound: "(p + 1) * (p + 1) - 2 * (p + 1) + 1 \<le> n" by simp
    from is_prime_loop_tried_upto(1) [OF loop _ d6 step bound] pn show False by simp
  qed
qed

text \<open>
  So \<^verbatim>\<open>is_prime\<close> is right from 2 on, \<^verbatim>\<open>find_next_prime\<close> returns the least prime that is
  not below its argument when the argument is at least 2, and the capacity that \<^verbatim>\<open>rehash\<close>
  chooses is a prime.
\<close>

lemma is_prime_iff: "is_prime n \<longleftrightarrow> n = 1 \<or> prime_nat n"
proof (cases "2 \<le> n")
  case True
  with is_prime_sound [of n] prime_nat_is_prime [of n] show ?thesis by auto
next
  case False
  then have "n = 0 \<or> n = 1" by auto
  then show ?thesis
  proof
    assume "n = 0"
    then show ?thesis by (simp add: is_prime_def prime_nat_def)
  next
    assume "n = 1"
    then show ?thesis by (simp add: is_prime_def is_prime_loop.simps prime_nat_def)
  qed
qed

lemma find_next_prime_least:
  "2 \<le> n \<Longrightarrow> prime_nat (find_next_prime n) \<and> n \<le> find_next_prime n \<and>
     (\<forall>m. n \<le> m \<and> m < find_next_prime n \<longrightarrow> \<not> prime_nat m)"
proof (induction n rule: find_next_prime.induct)
  case (1 n)
  show ?case
  proof (cases "is_prime n")
    case True
    then have "find_next_prime n = n" by (subst find_next_prime.simps) simp
    with True "1.prems" show ?thesis by (auto simp: is_prime_iff)
  next
    case False
    then have eq: "find_next_prime n = find_next_prime (n + 1)"
      by (subst find_next_prime.simps) simp
    from False have np: "\<not> prime_nat n" by (simp add: is_prime_iff)
    from "1.IH" [OF False] "1.prems"
    have IH: "prime_nat (find_next_prime (n + 1))" "n + 1 \<le> find_next_prime (n + 1)"
      "\<forall>m. n + 1 \<le> m \<and> m < find_next_prime (n + 1) \<longrightarrow> \<not> prime_nat m" by simp_all
    have "\<not> prime_nat m" if "n \<le> m \<and> m < find_next_prime (n + 1)" for m
    proof (cases "m = n")
      case True
      with np show ?thesis by simp
    next
      case False
      with that have "n + 1 \<le> m \<and> m < find_next_prime (n + 1)" by simp
      with IH(3) show ?thesis by blast
    qed
    with IH(1,2) show ?thesis by (simp add: eq)
  qed
qed

lemma insert_each_capacity_step:
  fixes t :: "('k, 'd) HashTbl"
  assumes ins: "\<forall>(t :: ('k, 'd) HashTbl) key v b t'. table_shape t \<longrightarrow>
      insert_ht n hashFunc keyEqual t key v = Some (b, t') \<longrightarrow>
      table_shape t' \<and> (m_size t' = m_size t \<or> prime_nat (m_size t'))"
  shows "table_shape t \<Longrightarrow> insert_each n hashFunc keyEqual t es = Some t' \<Longrightarrow>
      table_shape t' \<and> (m_size t' = m_size t \<or> prime_nat (m_size t'))"
proof (induction es arbitrary: t)
  case Nil
  then show ?case by simp
next
  case (Cons e es)
  from Cons.prems(2) obtain b t1 where
    i1: "insert_ht n hashFunc keyEqual t (m_key e) (m_data e) = Some (b, t1)"
    and rest: "insert_each n hashFunc keyEqual t1 es = Some t'"
    by (auto split: option.splits)
  from ins [rule_format, OF Cons.prems(1) i1] have s1: "table_shape t1"
    "m_size t1 = m_size t \<or> prime_nat (m_size t1)" by simp_all
  from Cons.IH [OF s1(1) rest] s1(2) show ?case by auto
qed

lemma rehash_capacity_step:
  fixes t :: "('k, 'd) HashTbl"
  assumes ins: "\<forall>(t :: ('k, 'd) HashTbl) key v b t'. table_shape t \<longrightarrow>
      insert_ht n hashFunc keyEqual t key v = Some (b, t') \<longrightarrow>
      table_shape t' \<and> (m_size t' = m_size t \<or> prime_nat (m_size t'))"
    and shape: "table_shape t" and reh: "rehash (Suc n) hashFunc keyEqual t = Some t'"
  shows "table_shape t' \<and> prime_nat (m_size t')"
proof -
  let ?N = "find_next_prime (2 * m_size t)"
  let ?t0 = "t\<lparr>m_size := ?N, m_table := replicate ?N [], m_count := 0\<rparr>"
  have pos: "0 < ?N" by (rule find_next_prime_pos)
  from shape have "2 \<le> 2 * m_size t" by (simp add: table_shape_def)
  from find_next_prime_least [OF this] have pr: "prime_nat ?N" by simp
  from reh have "insert_each n hashFunc keyEqual ?t0 (entries t) = Some t'"
    by (simp only: rehash_unfold [OF shape])
  from insert_each_capacity_step [OF ins fresh_table_potential(2) [OF pos] this] pr
  show ?thesis by auto
qed

lemma insert_ht_capacity_step:
  fixes t :: "('k, 'd) HashTbl"
  assumes reh: "\<forall>(t :: ('k, 'd) HashTbl) t'. table_shape t \<longrightarrow>
      rehash n hashFunc keyEqual t = Some t' \<longrightarrow> table_shape t' \<and> prime_nat (m_size t')"
    and shape: "table_shape t" and ins: "insert_ht n hashFunc keyEqual t key v = Some (b, t')"
  shows "table_shape t' \<and> (m_size t' = m_size t \<or> prime_nat (m_size t'))"
proof -
  obtain b1 t1 where step: "insert_step hashFunc keyEqual t key v = (b1, t1)"
    by (cases "insert_step hashFunc keyEqual t key v")
  note s = insert_step_potential [OF step]
  show ?thesis
  proof (cases "load_exceeded t1")
    case False
    from ins have "t' = t1" by (simp add: insert_ht_step step False)
    with s(2) s(4) [OF shape] show ?thesis by simp
  next
    case True
    from ins have "rehash n hashFunc keyEqual t1 = Some t'"
      by (auto simp: insert_ht_step step True)
    from reh [rule_format, OF s(4) [OF shape] this] show ?thesis by simp
  qed
qed

lemma capacity_after_fuel:
  "(\<forall>(t :: ('k, 'd) HashTbl) key v b t'. table_shape t \<longrightarrow>
      insert_ht n hashFunc keyEqual t key v = Some (b, t') \<longrightarrow>
      table_shape t' \<and> (m_size t' = m_size t \<or> prime_nat (m_size t'))) \<and>
   (\<forall>(t :: ('k, 'd) HashTbl) t'. table_shape t \<longrightarrow>
      rehash n hashFunc keyEqual t = Some t' \<longrightarrow> table_shape t' \<and> prime_nat (m_size t'))"
proof (induction n)
  case 0
  have reh: "\<forall>(t :: ('k, 'd) HashTbl) t'. table_shape t \<longrightarrow>
      rehash 0 hashFunc keyEqual t = Some t' \<longrightarrow> table_shape t' \<and> prime_nat (m_size t')"
    by simp
  with insert_ht_capacity_step [OF reh] show ?case by blast
next
  case (Suc n)
  note ins = Suc.IH [THEN conjunct1]
  have reh: "\<forall>(t :: ('k, 'd) HashTbl) t'. table_shape t \<longrightarrow>
      rehash (Suc n) hashFunc keyEqual t = Some t' \<longrightarrow> table_shape t' \<and> prime_nat (m_size t')"
    using rehash_capacity_step [OF ins] by blast
  with insert_ht_capacity_step [OF reh] show ?case by blast
qed

text \<open>
  The part of the capacity invariant that the code keeps: \<^verbatim>\<open>is_prime\<close> holds exactly for 1
  and for the primes; from 2 on \<^verbatim>\<open>find_next_prime\<close> returns the least prime that is not
  below its argument; a table constructed with a requested capacity of at least 2 has a
  prime capacity; and the capacity that a \<^verbatim>\<open>rehash\<close> leaves is a prime, so an \<^verbatim>\<open>insert\<close>
  either keeps the capacity or makes it a prime.
\<close>

theorem prime_capacity_from_two:
  fixes t :: "('k, 'd) HashTbl"
  shows "(is_prime n \<longleftrightarrow> n = 1 \<or> prime_nat n) \<and>
     (2 \<le> n \<longrightarrow> prime_nat (find_next_prime n) \<and> n \<le> find_next_prime n \<and>
        (\<forall>m. n \<le> m \<and> m < find_next_prime n \<longrightarrow> \<not> prime_nat m)) \<and>
     (2 \<le> n \<longrightarrow> prime_nat (m_size (HashTbl_ctor n :: ('k, 'd) HashTbl))) \<and>
     (table_shape t \<and> rehash fuel hashFunc keyEqual t = Some t' \<longrightarrow> prime_nat (m_size t')) \<and>
     (table_shape t \<and> insert_ht fuel hashFunc keyEqual t key v = Some (b, t'') \<longrightarrow>
        m_size t'' = m_size t \<or> prime_nat (m_size t''))"
proof -
  have p1: "is_prime n \<longleftrightarrow> n = 1 \<or> prime_nat n" by (rule is_prime_iff)
  have p2: "prime_nat (find_next_prime n) \<and> n \<le> find_next_prime n \<and>
        (\<forall>m. n \<le> m \<and> m < find_next_prime n \<longrightarrow> \<not> prime_nat m)" if "2 \<le> n"
    by (rule find_next_prime_least [OF that])
  have p3: "prime_nat (m_size (HashTbl_ctor n :: ('k, 'd) HashTbl))" if "2 \<le> n"
    using find_next_prime_least [OF that] by (simp add: HashTbl_ctor_def)
  have p4: "prime_nat (m_size t')"
    if h: "table_shape t \<and> rehash fuel hashFunc keyEqual t = Some t'"
  proof -
    from h have a: "table_shape t" and r: "rehash fuel hashFunc keyEqual t = Some t'" by simp_all
    from capacity_after_fuel [of fuel hashFunc keyEqual, THEN conjunct2, rule_format, OF a r]
    show ?thesis by simp
  qed
  have p5: "m_size t'' = m_size t \<or> prime_nat (m_size t'')"
    if h: "table_shape t \<and> insert_ht fuel hashFunc keyEqual t key v = Some (b, t'')"
  proof -
    from h have a: "table_shape t" and r: "insert_ht fuel hashFunc keyEqual t key v = Some (b, t'')"
      by simp_all
    from capacity_after_fuel [of fuel hashFunc keyEqual, THEN conjunct1, rule_format, OF a r]
    show ?thesis by simp
  qed
  show ?thesis
  proof (intro conjI)
    show "is_prime n \<longleftrightarrow> n = 1 \<or> prime_nat n" by (rule p1)
    show "2 \<le> n \<longrightarrow> prime_nat (find_next_prime n) \<and> n \<le> find_next_prime n \<and>
        (\<forall>m. n \<le> m \<and> m < find_next_prime n \<longrightarrow> \<not> prime_nat m)"
      using p2 by (rule impI)
    show "2 \<le> n \<longrightarrow> prime_nat (m_size (HashTbl_ctor n :: ('k, 'd) HashTbl))"
      using p3 by (rule impI)
    show "table_shape t \<and> rehash fuel hashFunc keyEqual t = Some t' \<longrightarrow> prime_nat (m_size t')"
      using p4 by (rule impI)
    show "table_shape t \<and> insert_ht fuel hashFunc keyEqual t key v = Some (b, t'') \<longrightarrow>
        m_size t'' = m_size t \<or> prime_nat (m_size t'')"
      using p5 by (rule impI)
  qed
qed

theorem prime_capacity_from_two_witness:
  "(2::nat) \<le> 22 \<and> prime_nat (find_next_prime 22) \<and> find_next_prime 22 = 23 \<and>
   table_shape (HashTbl_ctor 10 :: (nat, nat) HashTbl) \<and>
   prime_nat (m_size (HashTbl_ctor 10 :: (nat, nat) HashTbl)) \<and>
   rehash 1 (\<lambda>k. k) (=) (HashTbl_ctor 10 :: (nat, nat) HashTbl) =
     Some \<lparr>m_size = 23, m_count = 0, m_load_factor = 1, m_table = replicate 23 []\<rparr> \<and>
   prime_nat (m_size \<lparr>m_size = 23, m_count = 0, m_load_factor = 1,
                      m_table = replicate 23 ([] :: (nat, nat) HashEntry list)\<rparr>)"
proof -
  let ?t = "HashTbl_ctor 10 :: (nat, nat) HashTbl"
  let ?t' = "\<lparr>m_size = 23, m_count = 0, m_load_factor = 1,
              m_table = replicate 23 ([] :: (nat, nat) HashEntry list)\<rparr>"
  have a: "(2::nat) \<le> 22" and a': "(2::nat) \<le> 10" by simp_all
  have s: "table_shape ?t" by (rule hash_inv_shape [OF HashTbl_ctor_inv(1) [of "\<lambda>k. k"]])
  have r: "rehash 1 (\<lambda>k. k) (=) ?t = Some ?t'" by code_simp
  note T = prime_capacity_from_two [where n = 22 and t = ?t and t' = ?t' and fuel = 1
      and hashFunc = "\<lambda>k. k" and keyEqual = "(=)"]
  note T' = prime_capacity_from_two [where n = 10 and t = ?t]
  from T a have p: "prime_nat (find_next_prime 22)" by blast
  from T' a' have c: "prime_nat (m_size ?t)" by blast
  from T s r have q: "prime_nat (m_size ?t')" by blast
  from a p find_next_prime_22 s c r q show ?thesis by blast
qed

end
